theory Spec2Isabelle
  imports Main "HOL-Library.Sublist"
begin

section \<open>Subtitle parsing of \<^verbatim>\<open>home/src/index/video.py\<close>: class \<^verbatim>\<open>SubtitleParser\<close>\<close>

text \<open>
  A Python \<^verbatim>\<open>str\<close> is modelled as a \<^typ>\<open>string\<close>, one \<^typ>\<open>char\<close> per code point
  (code points below 256). The code compares characters only with ASCII characters,
  except for the whitespace test of \<^verbatim>\<open>str.strip()\<close>.
\<close>

subsection \<open>Exceptions\<close>

datatype error = KeyError | IndexError | TypeError | ValueError

subsection \<open>String primitives of Python used by the parser\<close>

definition nl :: char where
  "nl = CHR 0x0A"

definition is_digit :: "char \<Rightarrow> bool" where
  \<comment> \<open>the character class \<^verbatim>\<open>[0-9]\<close>\<close>
  "is_digit c = (c \<in> set ''0123456789'')"

definition is_space :: "char \<Rightarrow> bool" where
  \<comment> \<open>the characters \<^verbatim>\<open>str.strip()\<close> removes, among the code points below 256\<close>
  "is_space c = ((of_char c :: nat) \<in> set [9, 10, 11, 12, 13, 28, 29, 30, 31, 32, 133, 160])"

definition strip :: "string \<Rightarrow> string" where
  "strip s = rev (dropWhile is_space (rev (dropWhile is_space s)))"

text \<open>
  \<^verbatim>\<open>s.replace(old, new)\<close> and \<^verbatim>\<open>s.split(sep)\<close>: the occurrences are found from the
  left and do not overlap. \<open>old\<close> and \<open>sep\<close> are non-empty literals at every call in
  the source, and for those \<open>drop (length sep - 1) cs\<close> is what follows the occurrence
  that starts at \<open>c\<close>.
\<close>

fun replace :: "string \<Rightarrow> string \<Rightarrow> string \<Rightarrow> string" where
  "replace old new [] = []"
| "replace old new (c # cs) =
     (if prefix old (c # cs) then new @ replace old new (drop (length old - 1) cs)
      else c # replace old new cs)"

fun split :: "string \<Rightarrow> string \<Rightarrow> string list" where
  "split sep [] = [[]]"
| "split sep (c # cs) =
     (if prefix sep (c # cs) then [] # split sep (drop (length sep - 1) cs)
      else (case split sep cs of
              p # ps \<Rightarrow> (c # p) # ps
            | [] \<Rightarrow> [[c]]))"

fun join :: "string \<Rightarrow> string list \<Rightarrow> string" where
  "join sep [] = []"
| "join sep [x] = x"
| "join sep (x # y # ys) = x @ sep @ join sep (y # ys)"

subsection \<open>The regular expressions\<close>

text \<open>
  \<^verbatim>\<open>time_reg = r"^([0-9]{2}:?){3}\.[0-9]{3} --> ([0-9]{2}:?){3}\.[0-9]{3}"\<close>,
  \<^verbatim>\<open>stamp_reg = r"<([0-9]{2}:?){3}\.[0-9]{3}>"\<close> and \<^verbatim>\<open>tag_reg = r"</?c>"\<close>.

  A matcher takes the text at a position and returns what follows the match there, or
  \<open>None\<close>. The optional colon is taken when it is there: the backtracking matcher of
  \<^verbatim>\<open>re\<close> tries the other branch too, but after two digits and an untaken colon the
  pattern asks for a digit or a dot, so that branch never matches and the greedy
  choice is the only match.
\<close>

fun grp :: "string \<Rightarrow> string option" where
  \<comment> \<open>\<^verbatim>\<open>[0-9]{2}:?\<close>\<close>
  "grp (a # b # cs) =
     (if is_digit a \<and> is_digit b
      then (case cs of
              c # r \<Rightarrow> if c = CHR '':'' then Some r else Some cs
            | [] \<Rightarrow> Some cs)
      else None)"
| "grp _ = None"

fun frac :: "string \<Rightarrow> string option" where
  \<comment> \<open>\<^verbatim>\<open>\.[0-9]{3}\<close>\<close>
  "frac (d # a # b # c # r) =
     (if d = CHR ''.'' \<and> is_digit a \<and> is_digit b \<and> is_digit c then Some r else None)"
| "frac _ = None"

definition time_pat :: "string \<Rightarrow> string option" where
  \<comment> \<open>\<^verbatim>\<open>([0-9]{2}:?){3}\.[0-9]{3}\<close>\<close>
  "time_pat s = Option.bind (Option.bind (Option.bind (grp s) grp) grp) frac"

definition time_reg :: "string \<Rightarrow> string option" where
  \<comment> \<open>\<^verbatim>\<open>re.match(time_reg, line)\<close>; the result is the matched text, \<^verbatim>\<open>.group()\<close>\<close>
  "time_reg line =
     (case time_pat line of
        None \<Rightarrow> None
      | Some r1 \<Rightarrow>
          if prefix '' --> '' r1
          then (case time_pat (drop 5 r1) of
                  None \<Rightarrow> None
                | Some r2 \<Rightarrow> Some (take (length line - length r2) line))
          else None)"

definition stamp_reg :: "string \<Rightarrow> string option" where
  "stamp_reg s =
     (case s of
        [] \<Rightarrow> None
      | c # r \<Rightarrow>
          if c = CHR ''<''
          then (case time_pat r of
                  Some (g # r') \<Rightarrow> if g = CHR ''>'' then Some r' else None
                | _ \<Rightarrow> None)
          else None)"

definition tag_reg :: "string \<Rightarrow> string option" where
  "tag_reg s =
     (if prefix ''<c>'' s then Some (drop 3 s)
      else if prefix ''</c>'' s then Some (drop 4 s)
      else None)"

lemma grp_shorter: "grp s = Some r \<Longrightarrow> length r < length s"
  by (induction s rule: grp.induct) (auto split: if_splits list.splits)

lemma frac_shorter: "frac s = Some r \<Longrightarrow> length r < length s"
  by (induction s rule: frac.induct) (auto split: if_splits)

lemma time_pat_shorter: "time_pat s = Some r \<Longrightarrow> length r < length s"
  unfolding time_pat_def
  by (auto simp: bind_eq_Some_conv dest!: grp_shorter frac_shorter)

lemma stamp_reg_shorter: "stamp_reg s = Some r \<Longrightarrow> length r < length s"
  unfolding stamp_reg_def
  by (auto split: list.splits if_splits option.splits dest!: time_pat_shorter)

lemma tag_reg_shorter: "tag_reg s = Some r \<Longrightarrow> length r < length s"
  unfolding tag_reg_def
  by (auto split: if_splits simp: prefix_def)

text \<open>\<^verbatim>\<open>re.sub(stamp_reg, "", line)\<close> and \<^verbatim>\<open>re.sub(tag_reg, "", clean)\<close>.\<close>

function sub_stamp :: "string \<Rightarrow> string" where
  "sub_stamp [] = []"
| "sub_stamp (c # cs) =
     (case stamp_reg (c # cs) of
        Some r \<Rightarrow> sub_stamp r
      | None \<Rightarrow> c # sub_stamp cs)"
  by pat_completeness auto
termination
  by (relation "measure length") (auto dest: stamp_reg_shorter)

function sub_tag :: "string \<Rightarrow> string" where
  "sub_tag [] = []"
| "sub_tag (c # cs) =
     (case tag_reg (c # cs) of
        Some r \<Rightarrow> sub_tag r
      | None \<Rightarrow> c # sub_tag cs)"
  by pat_completeness auto
termination
  by (relation "measure length") (auto dest: tag_reg_shorter)

subsection \<open>Cues and the parser object\<close>

text \<open>
  A cue is a Python dict with the key \<^verbatim>\<open>"lines"\<close> and, once they are set, the keys
  \<^verbatim>\<open>"start"\<close>, \<^verbatim>\<open>"end"\<close> and \<^verbatim>\<open>"id"\<close>. \<^verbatim>\<open>parsed_cue_list\<close> owns the dicts;
  \<^verbatim>\<open>matched\<close> holds references to the same dicts, so it is a list of positions in
  \<^verbatim>\<open>parsed_cue_list\<close>, and an update through \<^verbatim>\<open>matched\<close> is an update of the
  store.
\<close>

record cue =
  cue_lines :: "string list"
  cue_start :: "string option"
  cue_end :: "string option"
  cue_id :: "nat option"

record parser =
  header :: string
  parsed_cue_list :: "cue list"
  all_text_lines :: "string list"
  matched :: "nat list"

definition matched_cues :: "parser \<Rightarrow> cue list" where
  \<comment> \<open>\<^verbatim>\<open>self.matched\<close> as the reader of the list sees it\<close>
  "matched_cues p = map (\<lambda>r. parsed_cue_list p ! r) (matched p)"

subsection \<open>\<^verbatim>\<open>_cue_cleaner\<close> and \<^verbatim>\<open>_parse_cues\<close>\<close>

definition last4 :: "string list \<Rightarrow> string list" where
  \<comment> \<open>\<^verbatim>\<open>self.all_text_lines[-4:]\<close>\<close>
  "last4 xs = drop (length xs - 4) xs"

definition accept_line :: "string \<Rightarrow> string list \<Rightarrow> string list" where
  \<comment> \<open>\<^verbatim>\<open>if clean.strip() and clean not in self.all_text_lines[-4:]: self.all_text_lines.append(clean)\<close>\<close>
  "accept_line clean atl =
     (if strip clean \<noteq> [] \<and> clean \<notin> set (last4 atl) then atl @ [clean] else atl)"

fun clean_lines :: "string list \<Rightarrow> cue \<Rightarrow> string list \<Rightarrow> error + (cue \<times> string list)" where
  \<comment> \<open>the loop \<^verbatim>\<open>for line in all_lines\<close> on the cue dict and \<^verbatim>\<open>self.all_text_lines\<close>\<close>
  "clean_lines [] cue_dict atl = Inr (cue_dict, atl)"
| "clean_lines (line # rest) cue_dict atl =
     (case time_reg line of
        Some clean \<Rightarrow>
          (case split '' --> '' clean of
             [s, e] \<Rightarrow> clean_lines rest (cue_dict\<lparr>cue_start := Some s, cue_end := Some e\<rparr>) atl
           | _ \<Rightarrow> Inl ValueError)
      | None \<Rightarrow>
          (let clean = sub_tag (sub_stamp line);
               cue_dict' = cue_dict\<lparr>cue_lines := cue_lines cue_dict @ [clean]\<rparr>
           in clean_lines rest cue_dict' (accept_line clean atl)))"

definition cue_cleaner :: "string \<Rightarrow> string list \<Rightarrow> error + (cue \<times> string list)" where
  "cue_cleaner cue atl =
     clean_lines (split [nl] cue)
       \<lparr>cue_lines = [], cue_start = None, cue_end = None, cue_id = None\<rparr> atl"

fun clean_all :: "string list \<Rightarrow> string list \<Rightarrow> error + (cue list \<times> string list)" where
  \<comment> \<open>\<^verbatim>\<open>[self._cue_cleaner(i) for i in all_cues[1:]]\<close>\<close>
  "clean_all [] atl = Inr ([], atl)"
| "clean_all (b # bs) atl =
     (case cue_cleaner b atl of
        Inl e \<Rightarrow> Inl e
      | Inr (c, atl') \<Rightarrow>
          (case clean_all bs atl' of
             Inl e \<Rightarrow> Inl e
           | Inr (cs, atl'') \<Rightarrow> Inr (c # cs, atl'')))"

definition parse_cues :: "string \<Rightarrow> error + parser" where
  "parse_cues subtitle_str =
     (case split [nl, nl] (replace [nl, CHR '' '', nl] [nl] subtitle_str) of
        [] \<Rightarrow> Inl IndexError
      | h # blocks \<Rightarrow>
          (case clean_all blocks [] of
             Inl e \<Rightarrow> Inl e
           | Inr (cs, atl) \<Rightarrow>
               Inr \<lparr>header = h, parsed_cue_list = cs, all_text_lines = atl, matched = []\<rparr>))"

subsection \<open>\<^verbatim>\<open>_match_text_lines\<close>\<close>

definition matches_of :: "cue list \<Rightarrow> string \<Rightarrow> nat list" where
  \<comment> \<open>\<^verbatim>\<open>[i for i in self.parsed_cue_list if check in i["lines"]]\<close>, as references\<close>
  "matches_of cs check = filter (\<lambda>i. check \<in> set (cue_lines (cs ! i))) [0..<length cs]"

definition match_step :: "cue list \<Rightarrow> string list \<Rightarrow> error + (cue list \<times> string list \<times> nat)" where
  \<comment> \<open>one round of the \<^verbatim>\<open>while\<close> loop, entered with a non-empty queue: the new store,
      the new queue and the reference appended to \<^verbatim>\<open>matched\<close>\<close>
  "match_step cs atl =
     (let check = hd atl;
          ms = matches_of cs check
      in if ms = [] then Inl IndexError
         else let new_cue = last ms in
           (case cue_start (cs ! hd ms) of
              None \<Rightarrow> Inl KeyError
            | Some s \<Rightarrow>
                let cs' = cs[new_cue := (cs ! new_cue)\<lparr>cue_start := Some s\<rparr>]
                in Inr (cs', fold remove1 (cue_lines (cs' ! new_cue)) atl, new_cue)))"

lemma length_fold_remove1_le: "length (fold remove1 ls q) \<le> length q"
proof (induction ls arbitrary: q)
  case Nil
  show ?case by simp
next
  case (Cons a ls)
  have "length (fold remove1 ls (remove1 a q)) \<le> length (remove1 a q)"
    by (rule Cons.IH)
  also have "\<dots> \<le> length q"
    by (cases "a \<in> set q") (simp_all add: length_remove1 remove1_idem)
  finally show ?case by simp
qed

lemma length_fold_remove1_less:
  "x \<in> set ls \<Longrightarrow> x \<in> set q \<Longrightarrow> length (fold remove1 ls q) < length q"
proof (induction ls arbitrary: q)
  case Nil
  then show ?case by simp
next
  case (Cons a ls)
  show ?case
  proof (cases "a = x")
    case True
    have "length (fold remove1 ls (remove1 a q)) \<le> length (remove1 a q)"
      by (rule length_fold_remove1_le)
    also have "\<dots> < length q"
      using Cons.prems(2) True length_pos_if_in_set [of x q] by (simp add: length_remove1)
    finally show ?thesis by simp
  next
    case False
    with Cons.prems have "x \<in> set ls" and "x \<in> set (remove1 a q)"
      by auto
    then have "length (fold remove1 ls (remove1 a q)) < length (remove1 a q)"
      by (rule Cons.IH)
    also have "\<dots> \<le> length q"
      by (cases "a \<in> set q") (simp_all add: length_remove1 remove1_idem)
    finally show ?thesis by simp
  qed
qed

lemma matches_of_in: "i \<in> set (matches_of cs check) \<Longrightarrow> i < length cs \<and> check \<in> set (cue_lines (cs ! i))"
  by (simp add: matches_of_def)

lemma match_step_shorter:
  assumes "match_step cs atl = Inr (cs', atl', n)" and "atl \<noteq> []"
  shows "length atl' < length atl"
proof -
  let ?ms = "matches_of cs (hd atl)"
  from assms(1) have ne: "?ms \<noteq> []"
    by (auto simp: match_step_def Let_def split: if_splits)
  then have "last ?ms \<in> set ?ms" by simp
  then have in_lines: "hd atl \<in> set (cue_lines (cs ! last ?ms))" and lt: "last ?ms < length cs"
    using matches_of_in by blast+
  from assms(1) ne obtain s where
    atl': "atl' = fold remove1 (cue_lines (cs[last ?ms := (cs ! last ?ms)\<lparr>cue_start := Some s\<rparr>] ! last ?ms)) atl"
    by (auto simp: match_step_def Let_def split: if_splits option.splits)
  have "cue_lines (cs[last ?ms := (cs ! last ?ms)\<lparr>cue_start := Some s\<rparr>] ! last ?ms) = cue_lines (cs ! last ?ms)"
    using lt by simp
  with atl' have "atl' = fold remove1 (cue_lines (cs ! last ?ms)) atl" by simp
  moreover have "hd atl \<in> set atl" using assms(2) by simp
  ultimately show ?thesis
    using length_fold_remove1_less [OF in_lines] by simp
qed

function match_loop :: "cue list \<Rightarrow> string list \<Rightarrow> nat list \<Rightarrow> error + (cue list \<times> nat list)" where
  \<comment> \<open>\<^verbatim>\<open>while self.all_text_lines: ...\<close>; the result is the store and \<^verbatim>\<open>self.matched\<close>\<close>
  "match_loop cs atl m =
     (if atl = [] then Inr (cs, m)
      else (case match_step cs atl of
              Inl e \<Rightarrow> Inl e
            | Inr (cs', atl', new_cue) \<Rightarrow> match_loop cs' atl' (m @ [new_cue])))"
  by pat_completeness auto
termination
  by (relation "measure (\<lambda>(cs, atl, m). length atl)") (auto dest: match_step_shorter)

declare match_loop.simps [simp del]

lemma match_loop_Nil [simp]: "match_loop cs [] m = Inr (cs, m)"
  by (simp add: match_loop.simps [of cs "[]" m])

lemma match_loop_step:
  "atl \<noteq> [] \<Longrightarrow>
     match_loop cs atl m =
       (case match_step cs atl of
          Inl e \<Rightarrow> Inl e
        | Inr (cs', atl', new_cue) \<Rightarrow> match_loop cs' atl' (m @ [new_cue]))"
  by (simp add: match_loop.simps [of cs atl m])

definition match_text_lines :: "parser \<Rightarrow> error + parser" where
  "match_text_lines p =
     (case match_loop (parsed_cue_list p) (all_text_lines p) [] of
        Inl e \<Rightarrow> Inl e
      | Inr (cs, m) \<Rightarrow> Inr (p\<lparr>parsed_cue_list := cs, all_text_lines := [], matched := m\<rparr>))"

subsection \<open>\<^verbatim>\<open>_add_id\<close>\<close>

fun add_id_from :: "nat \<Rightarrow> nat list \<Rightarrow> cue list \<Rightarrow> cue list" where
  \<comment> \<open>\<^verbatim>\<open>self.matched[idx]["id"] = idx + 1\<close> from position \<open>idx\<close> on\<close>
  "add_id_from idx [] cs = cs"
| "add_id_from idx (r # rs) cs =
     add_id_from (Suc idx) rs (cs[r := (cs ! r)\<lparr>cue_id := Some (idx + 1)\<rparr>])"

definition add_id :: "parser \<Rightarrow> parser" where
  "add_id p = p\<lparr>parsed_cue_list := add_id_from 0 (matched p) (parsed_cue_list p)\<rparr>"

subsection \<open>\<^verbatim>\<open>_timestamp_check\<close>\<close>

definition digit_val :: "char \<Rightarrow> nat" where
  "digit_val c = of_char c - 48"

definition int_of_digits :: "string \<Rightarrow> nat" where
  "int_of_digits ds = foldl (\<lambda>n c. 10 * n + digit_val c) 0 ds"

definition stamp_int :: "string option \<Rightarrow> error + nat" where
  \<comment> \<open>\<^verbatim>\<open>int(re.sub("[^0-9]", "", x))\<close>: \<^verbatim>\<open>re.sub\<close> raises TypeError on \<^verbatim>\<open>None\<close>,
      \<^verbatim>\<open>int\<close> raises ValueError on the empty string\<close>
  "stamp_int x =
     (case x of
        None \<Rightarrow> Inl TypeError
      | Some s \<Rightarrow>
          (let ds = filter is_digit s
           in if ds = [] then Inl ValueError else Inr (int_of_digits ds)))"

fun timestamp_loop :: "nat list \<Rightarrow> cue list \<Rightarrow> error + cue list" where
  \<comment> \<open>the loop from one position of \<^verbatim>\<open>self.matched\<close> on: the first argument is the rest
      of the list from that position, the second the store\<close>
  "timestamp_loop [] cs = Inr cs"
| "timestamp_loop [r] cs =
     (case stamp_int (cue_end (cs ! r)) of
        Inl e \<Rightarrow> Inl e
      | Inr en \<Rightarrow> Inr cs)"
| "timestamp_loop (r # nxt # rs) cs =
     (case stamp_int (cue_end (cs ! r)) of
        Inl e \<Rightarrow> Inl e
      | Inr en \<Rightarrow>
          (case stamp_int (cue_start (cs ! nxt)) of
             Inl e \<Rightarrow> Inl e
           | Inr start_next \<Rightarrow>
               timestamp_loop (nxt # rs)
                 (if en > start_next
                  then cs[r := (cs ! r)\<lparr>cue_end := cue_start (cs ! nxt)\<rparr>]
                  else cs)))"

definition timestamp_check :: "parser \<Rightarrow> error + parser" where
  "timestamp_check p =
     (case timestamp_loop (matched p) (parsed_cue_list p) of
        Inl e \<Rightarrow> Inl e
      | Inr cs \<Rightarrow> Inr (p\<lparr>parsed_cue_list := cs\<rparr>))"

subsection \<open>\<^verbatim>\<open>process\<close>\<close>

definition process :: "string \<Rightarrow> error + parser" where
  "process subtitle_str =
     (case parse_cues subtitle_str of
        Inl e \<Rightarrow> Inl e
      | Inr p0 \<Rightarrow>
          (case match_text_lines p0 of
             Inl e \<Rightarrow> Inl e
           | Inr p1 \<Rightarrow> timestamp_check (add_id p1)))"


subsection \<open>\<^verbatim>\<open>get_subtitle_str\<close>\<close>

definition digit_char :: "nat \<Rightarrow> char" where
  "digit_char n = ''0123456789'' ! n"

function str_nat :: "nat \<Rightarrow> string" where
  \<comment> \<open>the decimal text of a non-negative \<^verbatim>\<open>int\<close>, as an f-string prints it\<close>
  "str_nat n = (if n < 10 then [digit_char n] else str_nat (n div 10) @ [digit_char (n mod 10)])"
  by pat_completeness auto
termination
  by (relation "measure id") auto

declare str_nat.simps [simp del]

definition fmt_str :: "string option \<Rightarrow> string" where
  \<comment> \<open>\<^verbatim>\<open>f"{cue.get(key)}"\<close>: a missing key prints as \<^verbatim>\<open>None\<close>\<close>
  "fmt_str x = (case x of None \<Rightarrow> ''None'' | Some s \<Rightarrow> s)"

definition fmt_id :: "nat option \<Rightarrow> string" where
  "fmt_id x = (case x of None \<Rightarrow> ''None'' | Some n \<Rightarrow> str_nat n)"

definition cue_text :: "cue \<Rightarrow> string" where
  "cue_text c =
     fmt_id (cue_id c) @ [nl] @
     fmt_str (cue_start c) @ '' --> '' @ fmt_str (cue_end c) @ [nl] @
     join [nl] (cue_lines c) @ [nl, nl]"

definition get_subtitle_str :: "parser \<Rightarrow> string" where
  "get_subtitle_str p = header p @ [nl, nl] @ concat (map cue_text (matched_cues p))"

section \<open>The timestamp normalizer\<close>

text \<open>
  A reference held by \<^verbatim>\<open>matched\<close> always points to a dict of \<^verbatim>\<open>parsed_cue_list\<close>.
\<close>

definition refs_ok :: "parser \<Rightarrow> bool" where
  "refs_ok p = list_all (\<lambda>r. r < length (parsed_cue_list p)) (matched p)"

lemma upd_end_other [simp]:
  "cue_start (cs[r := (cs ! r)\<lparr>cue_end := x\<rparr>] ! i) = cue_start (cs ! i)"
  "cue_lines (cs[r := (cs ! r)\<lparr>cue_end := x\<rparr>] ! i) = cue_lines (cs ! i)"
  "cue_id (cs[r := (cs ! r)\<lparr>cue_end := x\<rparr>] ! i) = cue_id (cs ! i)"
  by (cases "r < length cs"; cases "i = r"; simp add: list_update_beyond)+

lemma timestamp_loop_frame:
  "timestamp_loop m cs = Inr cs' \<Longrightarrow>
     length cs' = length cs \<and>
     (\<forall>i. cue_start (cs' ! i) = cue_start (cs ! i) \<and> cue_lines (cs' ! i) = cue_lines (cs ! i) \<and>
          cue_id (cs' ! i) = cue_id (cs ! i)) \<and>
     (\<forall>i. i \<notin> set m \<longrightarrow> cs' ! i = cs ! i)"
proof (induction m cs arbitrary: cs' rule: timestamp_loop.induct)
  case (1 cs)
  then show ?case by simp
next
  case (2 r cs)
  then show ?case by (auto split: sum.splits)
next
  case (3 r nxt rs cs)
  from "3.prems" obtain en sn where
    en: "stamp_int (cue_end (cs ! r)) = Inr en" and sn: "stamp_int (cue_start (cs ! nxt)) = Inr sn"
    by (auto split: sum.splits)
  let ?cs1 = "if en > sn then cs[r := (cs ! r)\<lparr>cue_end := cue_start (cs ! nxt)\<rparr>] else cs"
  from "3.prems" en sn have rec: "timestamp_loop (nxt # rs) ?cs1 = Inr cs'"
    by simp
  note ih = "3.IH" [OF en sn rec]
  have step: "length ?cs1 = length cs \<and>
     (\<forall>i. cue_start (?cs1 ! i) = cue_start (cs ! i) \<and> cue_lines (?cs1 ! i) = cue_lines (cs ! i) \<and>
          cue_id (?cs1 ! i) = cue_id (cs ! i)) \<and>
     (\<forall>i. i \<noteq> r \<longrightarrow> ?cs1 ! i = cs ! i)"
    by simp
  show ?case
    using ih step by (metis list.set_intros(1,2) set_ConsD)
qed

text \<open>
  C10: \<^verbatim>\<open>_timestamp_check\<close> writes nothing but the \<^verbatim>\<open>"end"\<close> of matched cues: when
  it returns, \<^verbatim>\<open>matched\<close> is the same list of references (same length, same order), the
  start, the lines and the id of every matched cue are what they were, the header and
  the queue are untouched, and a cue that is not in \<^verbatim>\<open>matched\<close> is not changed at all.
\<close>

theorem timestamp_check_frame:
  "timestamp_check p = Inr p' \<Longrightarrow>
     matched p' = matched p \<and>
     length (matched_cues p') = length (matched_cues p) \<and>
     map cue_start (matched_cues p') = map cue_start (matched_cues p) \<and>
     map cue_lines (matched_cues p') = map cue_lines (matched_cues p) \<and>
     map cue_id (matched_cues p') = map cue_id (matched_cues p) \<and>
     header p' = header p \<and> all_text_lines p' = all_text_lines p \<and>
     length (parsed_cue_list p') = length (parsed_cue_list p) \<and>
     (\<forall>i. i \<notin> set (matched p) \<longrightarrow> parsed_cue_list p' ! i = parsed_cue_list p ! i)"
proof -
  assume a: "timestamp_check p = Inr p'"
  then obtain cs' where l: "timestamp_loop (matched p) (parsed_cue_list p) = Inr cs'"
    and p': "p' = p\<lparr>parsed_cue_list := cs'\<rparr>"
    by (auto simp: timestamp_check_def split: sum.splits)
  from timestamp_loop_frame [OF l] show ?thesis
    by (simp add: p' matched_cues_def)
qed

text \<open>
  Scenario D of the specification: a cue that ends at 00:00:10.000 followed by a cue
  that starts at 00:00:08.000.
\<close>

definition scenario_d :: parser where
  "scenario_d =
     \<lparr>header = ''WEBVTT'',
      parsed_cue_list =
        [\<lparr>cue_lines = [''one''], cue_start = Some ''00:00:05.000'', cue_end = Some ''00:00:10.000'',
           cue_id = Some 1\<rparr>,
         \<lparr>cue_lines = [''two''], cue_start = Some ''00:00:08.000'', cue_end = Some ''00:00:12.000'',
           cue_id = Some 2\<rparr>],
      all_text_lines = [], matched = [0, 1]\<rparr>"

definition scenario_d_checked :: parser where
  "scenario_d_checked =
     scenario_d\<lparr>parsed_cue_list :=
        [\<lparr>cue_lines = [''one''], cue_start = Some ''00:00:05.000'', cue_end = Some ''00:00:08.000'',
           cue_id = Some 1\<rparr>,
         \<lparr>cue_lines = [''two''], cue_start = Some ''00:00:08.000'', cue_end = Some ''00:00:12.000'',
           cue_id = Some 2\<rparr>]\<rparr>"

lemma scenario_d_run: "timestamp_check scenario_d = Inr scenario_d_checked"
  by (simp add: timestamp_check_def scenario_d_def scenario_d_checked_def stamp_int_def
      int_of_digits_def digit_val_def is_digit_def)

theorem timestamp_check_frame_witness:
  "timestamp_check scenario_d = Inr scenario_d_checked \<and>
   matched scenario_d_checked = matched scenario_d \<and>
   map cue_start (matched_cues scenario_d_checked) = map cue_start (matched_cues scenario_d) \<and>
   map cue_lines (matched_cues scenario_d_checked) = map cue_lines (matched_cues scenario_d) \<and>
   map cue_id (matched_cues scenario_d_checked) = map cue_id (matched_cues scenario_d) \<and>
   map cue_end (matched_cues scenario_d_checked) \<noteq> map cue_end (matched_cues scenario_d)"
  using timestamp_check_frame [OF scenario_d_run]
  by (simp add: scenario_d_run) (simp add: scenario_d_def scenario_d_checked_def matched_cues_def)

lemma timestamp_loop_end_le:
  "timestamp_loop m cs = Inr cs' \<Longrightarrow> stamp_int (cue_end (cs ! i)) = Inr n \<Longrightarrow>
     \<exists>n'. stamp_int (cue_end (cs' ! i)) = Inr n' \<and> n' \<le> n"
proof (induction m cs arbitrary: cs' n rule: timestamp_loop.induct)
  case (1 cs)
  then show ?case by simp
next
  case (2 r cs)
  then show ?case by (auto split: sum.splits)
next
  case (3 r nxt rs cs)
  from "3.prems"(1) obtain en sn where
    en: "stamp_int (cue_end (cs ! r)) = Inr en" and sn: "stamp_int (cue_start (cs ! nxt)) = Inr sn"
    by (auto split: sum.splits)
  let ?cs1 = "if en > sn then cs[r := (cs ! r)\<lparr>cue_end := cue_start (cs ! nxt)\<rparr>] else cs"
  from "3.prems"(1) en sn have rec: "timestamp_loop (nxt # rs) ?cs1 = Inr cs'"
    by simp
  have "\<exists>n1. stamp_int (cue_end (?cs1 ! i)) = Inr n1 \<and> n1 \<le> n"
  proof (cases "en > sn \<and> i = r \<and> r < length cs")
    case True
    then have "cue_end (?cs1 ! i) = cue_start (cs ! nxt)" by simp
    moreover from True en "3.prems"(2) have "sn \<le> n" by simp
    ultimately show ?thesis using sn by simp
  next
    case False
    then have "cue_end (?cs1 ! i) = cue_end (cs ! i)"
      by (auto simp: nth_list_update list_update_beyond)
    then show ?thesis using "3.prems"(2) by simp
  qed
  then obtain n1 where n1: "stamp_int (cue_end (?cs1 ! i)) = Inr n1" and le: "n1 \<le> n"
    by blast
  from "3.IH" [OF en sn rec n1] le show ?case
    by (meson le_trans)
qed

lemma timestamp_loop_ordered:
  "timestamp_loop m cs = Inr cs' \<Longrightarrow> list_all (\<lambda>r. r < length cs) m \<Longrightarrow> Suc i < length m \<Longrightarrow>
     \<exists>en sn. stamp_int (cue_end (cs' ! (m ! i))) = Inr en \<and>
             stamp_int (cue_start (cs' ! (m ! Suc i))) = Inr sn \<and> en \<le> sn"
proof (induction m cs arbitrary: cs' i rule: timestamp_loop.induct)
  case (1 cs)
  then show ?case by simp
next
  case (2 r cs)
  then show ?case by simp
next
  case (3 r nxt rs cs)
  from "3.prems"(1) obtain en sn where
    en: "stamp_int (cue_end (cs ! r)) = Inr en" and sn: "stamp_int (cue_start (cs ! nxt)) = Inr sn"
    by (auto split: sum.splits)
  let ?cs1 = "if en > sn then cs[r := (cs ! r)\<lparr>cue_end := cue_start (cs ! nxt)\<rparr>] else cs"
  from "3.prems"(1) en sn have rec: "timestamp_loop (nxt # rs) ?cs1 = Inr cs'"
    by simp
  from "3.prems"(2) have r: "r < length cs" and rest: "list_all (\<lambda>r. r < length ?cs1) (nxt # rs)"
    by simp_all
  show ?case
  proof (cases i)
    case 0
    have "\<exists>n1. stamp_int (cue_end (?cs1 ! r)) = Inr n1 \<and> n1 \<le> sn"
      using en sn r by (cases "en > sn") simp_all
    then obtain n1 where n1: "stamp_int (cue_end (?cs1 ! r)) = Inr n1" and le: "n1 \<le> sn"
      by blast
    from timestamp_loop_end_le [OF rec n1] obtain n' where
      n': "stamp_int (cue_end (cs' ! r)) = Inr n'" and "n' \<le> n1"
      by blast
    moreover have "cue_start (cs' ! nxt) = cue_start (cs ! nxt)"
      using timestamp_loop_frame [OF rec] by simp
    ultimately show ?thesis
      using 0 sn le by simp
  next
    case (Suc j)
    with "3.prems"(3) have "Suc j < length (nxt # rs)" by simp
    from "3.IH" [OF en sn rec rest this] show ?thesis
      using Suc by simp
  qed
qed

text \<open>
  When the pass returns, every adjacent pair of matched cues is ordered, and with fewer
  than two matched cues nothing is changed.
\<close>

lemma timestamp_check_ordered:
  assumes "timestamp_check p = Inr p'" and "refs_ok p"
  shows "(\<forall>i. Suc i < length (matched_cues p') \<longrightarrow>
            (\<exists>en sn. stamp_int (cue_end (matched_cues p' ! i)) = Inr en \<and>
                     stamp_int (cue_start (matched_cues p' ! Suc i)) = Inr sn \<and> en \<le> sn)) \<and>
         (length (matched_cues p) < 2 \<longrightarrow> p' = p)"
proof -
  from assms(1) obtain cs' where l: "timestamp_loop (matched p) (parsed_cue_list p) = Inr cs'"
    and p': "p' = p\<lparr>parsed_cue_list := cs'\<rparr>"
    by (auto simp: timestamp_check_def split: sum.splits)
  from assms(2) have ok: "list_all (\<lambda>r. r < length (parsed_cue_list p)) (matched p)"
    by (simp add: refs_ok_def)
  have "length (matched p) < 2 \<longrightarrow> cs' = parsed_cue_list p"
  proof
    assume "length (matched p) < 2"
    then have "matched p = [] \<or> (\<exists>r. matched p = [r])"
      by (cases "matched p"; cases "tl (matched p)") auto
    then show "cs' = parsed_cue_list p"
      using l by (auto split: sum.splits)
  qed
  then show ?thesis
    using timestamp_loop_ordered [OF l ok] by (simp add: p' matched_cues_def)
qed

definition single_cue :: parser where
  "single_cue =
     \<lparr>header = ''WEBVTT'',
      parsed_cue_list =
        [\<lparr>cue_lines = [''one''], cue_start = Some ''00:00:05.000'', cue_end = Some ''00:00:10.000'',
           cue_id = Some 1\<rparr>],
      all_text_lines = [], matched = [0]\<rparr>"

lemma single_cue_run: "timestamp_check single_cue = Inr single_cue"
  by (simp add: timestamp_check_def single_cue_def stamp_int_def is_digit_def)

section \<open>The aligner\<close>


lemma match_loop_count:
  "match_loop cs atl m = Inr (cs', m') \<Longrightarrow>
     length m' \<le> length m + length atl \<and> length m \<le> length m' \<and> (atl \<noteq> [] \<longrightarrow> length m < length m')"
proof (induction cs atl m arbitrary: cs' m' rule: match_loop.induct)
  case (1 cs atl m)
  show ?case
  proof (cases "atl = []")
    case True
    with "1.prems" show ?thesis by simp
  next
    case False
    with "1.prems" obtain cs1 atl1 n where
      step: "match_step cs atl = Inr (cs1, atl1, n)" and
      rec: "match_loop cs1 atl1 (m @ [n]) = Inr (cs', m')"
      by (auto simp: match_loop_step split: sum.splits)
    from match_step_shorter [OF step False] have "length atl1 < length atl" .
    moreover from "1.IH" [OF False step refl refl rec]
    have "length m' \<le> length (m @ [n]) + length atl1" and "length (m @ [n]) \<le> length m'"
      by simp_all
    ultimately show ?thesis by simp
  qed
qed

text \<open>
  A round appends one matched cue and shortens the queue, so the aligner returns at most
  as many matched cues as there were queued lines, and at least one when there was one.
\<close>

lemma match_text_lines_count:
  assumes "match_text_lines p = Inr p'"
  shows "length (matched_cues p') \<le> length (all_text_lines p) \<and>
         (all_text_lines p \<noteq> [] \<longrightarrow> 1 \<le> length (matched_cues p'))"
proof -
  from assms obtain cs m where
    l: "match_loop (parsed_cue_list p) (all_text_lines p) [] = Inr (cs, m)" and
    p': "p' = p\<lparr>parsed_cue_list := cs, all_text_lines := [], matched := m\<rparr>"
    by (auto simp: match_text_lines_def split: sum.splits)
  from match_loop_count [OF l] show ?thesis
    by (cases m) (auto simp: p' matched_cues_def)
qed


lemma sorted_hd_le: "sorted xs \<Longrightarrow> x \<in> set xs \<Longrightarrow> hd xs \<le> (x::nat)"
  by (cases xs) auto

lemma sorted_le_last: "sorted xs \<Longrightarrow> x \<in> set xs \<Longrightarrow> (x::nat) \<le> last xs"
  by (induction xs) (auto split: if_splits)

lemma matches_of_iff: "i \<in> set (matches_of cs check) \<longleftrightarrow> i < length cs \<and> check \<in> set (cue_lines (cs ! i))"
  by (auto simp: matches_of_def)

lemma sorted_matches_of: "sorted (matches_of cs check)"
  by (simp add: matches_of_def sorted_wrt_filter)

lemma match_step_Inr:
  assumes "match_step cs atl = Inr (cs', atl', n)"
  shows "matches_of cs (hd atl) \<noteq> [] \<and> n = last (matches_of cs (hd atl)) \<and>
         (\<exists>s. cue_start (cs ! hd (matches_of cs (hd atl))) = Some s \<and>
              cs' = cs[n := (cs ! n)\<lparr>cue_start := Some s\<rparr>]) \<and>
         atl' = fold remove1 (cue_lines (cs ! n)) atl"
proof -
  let ?ms = "matches_of cs (hd atl)"
  from assms have ne: "?ms \<noteq> []"
    by (auto simp: match_step_def Let_def split: if_splits)
  then have "last ?ms \<in> set ?ms" by simp
  then have lt: "last ?ms < length cs"
    by (simp add: matches_of_iff)
  from assms ne lt show ?thesis
    by (auto simp: match_step_def Let_def split: if_splits option.splits)
qed

text \<open>
  C5, as the code has it: the cue appended for the line at the head of the queue is the
  last parsed cue whose lines contain it; its lines are not changed; its start becomes
  the start held, at that moment, by the first parsed cue (in input order) whose lines
  contain the line, and that cue must have a start.
\<close>

theorem match_step_chosen:
  assumes "match_step cs atl = Inr (cs', atl', n)"
  shows "n < length cs \<and> hd atl \<in> set (cue_lines (cs ! n)) \<and>
         (\<forall>j < length cs. hd atl \<in> set (cue_lines (cs ! j)) \<longrightarrow> j \<le> n) \<and>
         cue_lines (cs' ! n) = cue_lines (cs ! n) \<and>
         (\<exists>f \<le> n. hd atl \<in> set (cue_lines (cs ! f)) \<and>
                 (\<forall>j < f. hd atl \<notin> set (cue_lines (cs ! j))) \<and>
                 cue_start (cs ! f) \<noteq> None \<and>
                 cue_start (cs' ! n) = cue_start (cs ! f))"
proof -
  let ?ms = "matches_of cs (hd atl)"
  from match_step_Inr [OF assms] obtain s where
    ne: "?ms \<noteq> []" and n: "n = last ?ms" and
    s: "cue_start (cs ! hd ?ms) = Some s" and cs': "cs' = cs[n := (cs ! n)\<lparr>cue_start := Some s\<rparr>]"
    by blast
  from ne n have n_in: "n \<in> set ?ms" by simp
  from ne have f_in: "hd ?ms \<in> set ?ms" by simp
  from n_in have lt: "n < length cs" and inl: "hd atl \<in> set (cue_lines (cs ! n))"
    by (simp_all add: matches_of_iff)
  have greatest: "\<forall>j < length cs. hd atl \<in> set (cue_lines (cs ! j)) \<longrightarrow> j \<le> n"
    using sorted_le_last [OF sorted_matches_of] n by (simp add: matches_of_iff)
  have least: "\<forall>j < hd ?ms. hd atl \<notin> set (cue_lines (cs ! j))"
  proof (intro allI impI notI)
    fix j assume j: "j < hd ?ms" and "hd atl \<in> set (cue_lines (cs ! j))"
    moreover from f_in have "hd ?ms < length cs" by (simp add: matches_of_iff)
    ultimately have "j \<in> set ?ms" by (simp add: matches_of_iff)
    from sorted_hd_le [OF sorted_matches_of this] j show False by simp
  qed
  have "hd ?ms \<le> n"
    using sorted_le_last [OF sorted_matches_of f_in] n by simp
  moreover from f_in have "hd atl \<in> set (cue_lines (cs ! hd ?ms))"
    by (simp add: matches_of_iff)
  moreover have "cue_lines (cs' ! n) = cue_lines (cs ! n)" "cue_start (cs' ! n) = Some s"
    using lt by (simp_all add: cs')
  ultimately show ?thesis
    using lt inl greatest least s by auto
qed


definition queue_ok :: "cue list \<Rightarrow> string list \<Rightarrow> bool" where
  "queue_ok cs atl = list_all (\<lambda>l. list_ex (\<lambda>c. l \<in> set (cue_lines c)) cs) atl"

lemma queue_ok_iff:
  "queue_ok cs atl \<longleftrightarrow> (\<forall>l \<in> set atl. \<exists>i < length cs. l \<in> set (cue_lines (cs ! i)))"
  unfolding queue_ok_def list_all_iff list_ex_iff by (metis in_set_conv_nth)

lemma subseq_fold_remove1: "subseq (fold remove1 ls q) q"
proof (induction ls arbitrary: q)
  case Nil
  show ?case by simp
next
  case (Cons a ls)
  have "subseq (fold remove1 ls (remove1 a q)) (remove1 a q)" by (rule Cons.IH)
  moreover have "subseq (remove1 a q) q"
    by (induction q) auto
  ultimately show ?case by (auto intro: subseq_order.order_trans)
qed

lemma fold_remove1_head:
  "x \<in> set ls \<Longrightarrow> subseq (fold remove1 ls (x # q)) q"
proof (induction ls arbitrary: q)
  case Nil
  then show ?case by simp
next
  case (Cons a ls)
  show ?case
  proof (cases "a = x")
    case True
    then show ?thesis using subseq_fold_remove1 [of ls q] by simp
  next
    case False
    with Cons.prems have "x \<in> set ls" by simp
    from Cons.IH [OF this, of "remove1 a q"]
    have "subseq (fold remove1 ls (x # remove1 a q)) (remove1 a q)" .
    moreover have "subseq (remove1 a q) q" by (induction q) auto
    ultimately show ?thesis using False by (auto intro: subseq_order.order_trans)
  qed
qed

lemma set_fold_remove1: "set (fold remove1 ls q) \<subseteq> set q"
proof (induction ls arbitrary: q)
  case Nil
  show ?case by simp
next
  case (Cons a ls)
  have "set (fold remove1 ls (remove1 a q)) \<subseteq> set (remove1 a q)" by (rule Cons.IH)
  also have "\<dots> \<subseteq> set q" by (rule set_remove1_subset)
  finally show ?case by simp
qed

lemma match_step_progress:
  assumes "queue_ok cs atl" and "atl \<noteq> []"
  shows "match_step cs atl = Inl KeyError \<or>
         (\<exists>cs' atl' n. match_step cs atl = Inr (cs', atl', n) \<and> length atl' < length atl \<and>
             subseq atl' (tl atl) \<and> queue_ok cs' atl')"
proof -
  let ?ms = "matches_of cs (hd atl)"
  from assms have "hd atl \<in> set atl" by simp
  with assms(1) obtain i where "i < length cs" "hd atl \<in> set (cue_lines (cs ! i))"
    by (auto simp: queue_ok_iff)
  then have "i \<in> set ?ms" by (simp add: matches_of_iff)
  then have ne: "?ms \<noteq> []" by auto
  show ?thesis
  proof (cases "cue_start (cs ! hd ?ms)")
    case None
    with ne show ?thesis by (simp add: match_step_def Let_def)
  next
    case (Some s)
    let ?n = "last ?ms"
    let ?cs' = "cs[?n := (cs ! ?n)\<lparr>cue_start := Some s\<rparr>]"
    let ?atl' = "fold remove1 (cue_lines (?cs' ! ?n)) atl"
    from ne Some have step: "match_step cs atl = Inr (?cs', ?atl', ?n)"
      by (simp add: match_step_def Let_def)
    from ne have "?n \<in> set ?ms" by simp
    then have lt: "?n < length cs" and inl: "hd atl \<in> set (cue_lines (cs ! ?n))"
      by (simp_all add: matches_of_iff)
    have lines: "\<And>i. cue_lines (?cs' ! i) = cue_lines (cs ! i)"
      using lt by (simp add: nth_list_update)
    from assms(2) obtain x q where atl: "atl = x # q" by (cases atl) auto
    have sub: "subseq ?atl' (tl atl)"
      unfolding lines using fold_remove1_head [of x "cue_lines (cs ! ?n)" q] inl by (simp add: atl)
    have "set ?atl' \<subseteq> set atl" by (rule set_fold_remove1)
    with assms(1) have ok: "queue_ok ?cs' ?atl'"
      by (auto simp: queue_ok_iff lines)
    from match_step_shorter [OF step assms(2)] step sub ok show ?thesis by blast
  qed
qed


subsection \<open>Scenario A of the specification\<close>

text \<open>
  Header \<^verbatim>\<open>WEBVTT\<close>, cue 1 from 00:00:01.000 to 00:00:03.000 with the line \<^verbatim>\<open>Hello\<close>,
  cue 2 from 00:00:02.500 to 00:00:05.000 with the lines \<^verbatim>\<open>Hello\<close> and \<^verbatim>\<open>World\<close>.
\<close>

definition scenario_a :: string where
  "scenario_a =
     join [nl] [''WEBVTT'', '''',
       ''00:00:01.000 --> 00:00:03.000'', ''Hello'', '''',
       ''00:00:02.500 --> 00:00:05.000'', ''Hello'', ''World'']"

definition scenario_a_parsed :: parser where
  "scenario_a_parsed =
     \<lparr>header = ''WEBVTT'',
      parsed_cue_list =
        [\<lparr>cue_lines = [''Hello''], cue_start = Some ''00:00:01.000'',
           cue_end = Some ''00:00:03.000'', cue_id = None\<rparr>,
         \<lparr>cue_lines = [''Hello'', ''World''], cue_start = Some ''00:00:02.500'',
           cue_end = Some ''00:00:05.000'', cue_id = None\<rparr>],
      all_text_lines = [''Hello'', ''World''], matched = []\<rparr>"

definition scenario_a_matched :: parser where
  "scenario_a_matched =
     \<lparr>header = ''WEBVTT'',
      parsed_cue_list =
        [\<lparr>cue_lines = [''Hello''], cue_start = Some ''00:00:01.000'',
           cue_end = Some ''00:00:03.000'', cue_id = None\<rparr>,
         \<lparr>cue_lines = [''Hello'', ''World''], cue_start = Some ''00:00:01.000'',
           cue_end = Some ''00:00:05.000'', cue_id = None\<rparr>],
      all_text_lines = [], matched = [1]\<rparr>"

lemma scenario_a_parse: "parse_cues scenario_a = Inr scenario_a_parsed"
  by code_simp

lemma scenario_a_match: "match_text_lines scenario_a_parsed = Inr scenario_a_matched"
  by code_simp

text \<open>
  C1 as stated fails on Scenario A: two lines are accepted into the queue, and the
  aligner produces one matched cue.
\<close>

theorem scenario_a_one_matched_cue:
  "parse_cues scenario_a = Inr scenario_a_parsed \<and>
   length (all_text_lines scenario_a_parsed) = 2 \<and>
   match_text_lines scenario_a_parsed = Inr scenario_a_matched \<and>
   length (matched_cues scenario_a_matched) = 1"
  by (simp add: scenario_a_parse scenario_a_match)
    (simp add: scenario_a_parsed_def scenario_a_matched_def matched_cues_def)

subsection \<open>A line said again after four other lines\<close>

text \<open>
  The line \<^verbatim>\<open>y\<close> is accepted into the queue twice, four other lines apart. Both times
  the chosen cue is the third one, so \<^verbatim>\<open>matched\<close> holds the same dict twice.
\<close>

definition repeated_line :: string where
  "repeated_line =
     join [nl] [''WEBVTT'', '''',
       ''00:00:01.000 --> 00:00:02.000'', ''y'', '''',
       ''00:00:02.000 --> 00:00:03.000'', ''a'', ''b'', ''c'', ''d'', '''',
       ''00:00:03.000 --> 00:00:04.000'', ''y'']"

definition repeated_line_result :: parser where
  "repeated_line_result =
     \<lparr>header = ''WEBVTT'',
      parsed_cue_list =
        [\<lparr>cue_lines = [''y''], cue_start = Some ''00:00:01.000'',
           cue_end = Some ''00:00:02.000'', cue_id = None\<rparr>,
         \<lparr>cue_lines = [''a'', ''b'', ''c'', ''d''], cue_start = Some ''00:00:02.000'',
           cue_end = Some ''00:00:01.000'', cue_id = Some 2\<rparr>,
         \<lparr>cue_lines = [''y''], cue_start = Some ''00:00:01.000'',
           cue_end = Some ''00:00:02.000'', cue_id = Some 3\<rparr>],
      all_text_lines = [], matched = [2, 1, 2]\<rparr>"

text \<open>
  C4 on this input: \<^verbatim>\<open>_add_id\<close> writes 1 and then 3 into the same dict, and the ids
  read in output order are 3, 2, 3.
\<close>

theorem repeated_line_ids:
  "process repeated_line = Inr repeated_line_result \<and>
   map cue_id (matched_cues repeated_line_result) = [Some 3, Some 2, Some 3]"
  by code_simp

subsection \<open>Cues that are not in chronological order\<close>

definition out_of_order :: string where
  "out_of_order =
     join [nl] [''WEBVTT'', '''',
       ''00:00:05.000 --> 00:00:06.000'', ''x'', '''',
       ''00:00:01.000 --> 00:00:02.000'', ''x'']"

definition out_of_order_parsed :: parser where
  "out_of_order_parsed =
     \<lparr>header = ''WEBVTT'',
      parsed_cue_list =
        [\<lparr>cue_lines = [''x''], cue_start = Some ''00:00:05.000'',
           cue_end = Some ''00:00:06.000'', cue_id = None\<rparr>,
         \<lparr>cue_lines = [''x''], cue_start = Some ''00:00:01.000'',
           cue_end = Some ''00:00:02.000'', cue_id = None\<rparr>],
      all_text_lines = [''x''], matched = []\<rparr>"

definition out_of_order_matched :: parser where
  "out_of_order_matched =
     \<lparr>header = ''WEBVTT'',
      parsed_cue_list =
        [\<lparr>cue_lines = [''x''], cue_start = Some ''00:00:05.000'',
           cue_end = Some ''00:00:06.000'', cue_id = None\<rparr>,
         \<lparr>cue_lines = [''x''], cue_start = Some ''00:00:05.000'',
           cue_end = Some ''00:00:02.000'', cue_id = None\<rparr>],
      all_text_lines = [], matched = [1]\<rparr>"

text \<open>
  C5 as stated fails here: the matched cue for \<^verbatim>\<open>x\<close> starts at 00:00:05.000, the start
  of the first cue of the input, while a source cue that contains \<^verbatim>\<open>x\<close> starts at
  00:00:01.000.
\<close>

theorem out_of_order_start:
  "parse_cues out_of_order = Inr out_of_order_parsed \<and>
   match_text_lines out_of_order_parsed = Inr out_of_order_matched \<and>
   map cue_start (matched_cues out_of_order_matched) = [Some ''00:00:05.000''] \<and>
   ''x'' \<in> set (cue_lines (parsed_cue_list out_of_order_parsed ! 1)) \<and>
   cue_start (parsed_cue_list out_of_order_parsed ! 1) = Some ''00:00:01.000'' \<and>
   stamp_int (Some ''00:00:01.000'') = Inr 1000 \<and>
   stamp_int (Some ''00:00:05.000'') = Inr 5000"
  by code_simp

lemma scenario_a_step:
  "match_step (parsed_cue_list scenario_a_parsed) (all_text_lines scenario_a_parsed) =
     Inr (parsed_cue_list scenario_a_matched, [], 1)"
  by code_simp

theorem match_step_chosen_witness:
  "match_step (parsed_cue_list scenario_a_parsed) (all_text_lines scenario_a_parsed) =
     Inr (parsed_cue_list scenario_a_matched, [], 1) \<and>
   cue_lines (parsed_cue_list scenario_a_matched ! 1) = [''Hello'', ''World''] \<and>
   cue_start (parsed_cue_list scenario_a_matched ! 1) =
     cue_start (parsed_cue_list scenario_a_parsed ! 0)"
  using match_step_chosen [OF scenario_a_step]
  by (simp add: scenario_a_step) (simp add: scenario_a_parsed_def scenario_a_matched_def)


section \<open>The timestamp line\<close>

text \<open>
  The texts the time pattern stands for, written out: nine digits in three groups of two
  and one of three, each group of two followed by a colon or by nothing, and a dot before
  the last three. \<open>time_text ds ch cm cs\<close> is that text for the digits \<open>ds\<close>; the flags
  say which colons are there.
\<close>

definition colon :: "bool \<Rightarrow> string" where
  "colon b = (if b then '':'' else [])"

definition time_text :: "string \<Rightarrow> bool \<Rightarrow> bool \<Rightarrow> bool \<Rightarrow> string" where
  "time_text ds ch cm cs =
     take 2 ds @ colon ch @ take 2 (drop 2 ds) @ colon cm @ take 2 (drop 4 ds) @ colon cs @
     ''.'' @ drop 6 ds"

definition digits9 :: "string \<Rightarrow> bool" where
  "digits9 ds = (length ds = 9 \<and> list_all is_digit ds)"

lemma digit_not_colon [simp]: "is_digit c \<Longrightarrow> (c = CHR '':'') = False"
  by (auto simp: is_digit_def)

lemma digit_not_space: "is_digit c \<Longrightarrow> c \<noteq> CHR '' ''"
  by (auto simp: is_digit_def)

lemma digits9_shape:
  assumes "digits9 ds"
  shows "\<exists>a b c d e f g h i. ds = [a, b, c, d, e, f, g, h, i]"
proof -
  from assms have "length ds = 9" by (simp add: digits9_def)
  then show ?thesis
    by (auto simp: numeral_eq_Suc length_Suc_conv)
qed

lemma grp_digits: "is_digit a \<Longrightarrow> is_digit b \<Longrightarrow> r \<noteq> [] \<Longrightarrow> hd r \<noteq> CHR '':'' \<Longrightarrow>
    grp (a # b # colon c @ r) = Some r"
  by (cases r) (auto simp: colon_def)

lemma time_pat_time_text:
  assumes "digits9 ds"
  shows "time_pat (time_text ds ch cm cs @ r) = Some r"
proof -
  from digits9_shape [OF assms] obtain a b c d e f g h i where
    ds: "ds = [a, b, c, d, e, f, g, h, i]"
    by blast
  have dg: "is_digit a" "is_digit b" "is_digit c" "is_digit d" "is_digit e" "is_digit f"
    "is_digit g" "is_digit h" "is_digit i"
    using assms by (simp_all add: digits9_def ds)
  have 3: "grp (e # f # colon cs @ (CHR ''.'' # g # h # i # r)) = Some (CHR ''.'' # g # h # i # r)"
    using dg by (intro grp_digits) simp_all
  have 2: "grp (c # d # colon cm @ (e # f # colon cs @ CHR ''.'' # g # h # i # r)) =
      Some (e # f # colon cs @ CHR ''.'' # g # h # i # r)"
    using dg by (intro grp_digits) simp_all
  have 1: "grp (a # b # colon ch @ (c # d # colon cm @ e # f # colon cs @ CHR ''.'' # g # h # i # r)) =
      Some (c # d # colon cm @ e # f # colon cs @ CHR ''.'' # g # h # i # r)"
    using dg by (intro grp_digits) simp_all
  have 4: "frac (CHR ''.'' # g # h # i # r) = Some r"
    using dg by simp
  have tt: "time_text ds ch cm cs @ r =
      a # b # colon ch @ (c # d # colon cm @ e # f # colon cs @ CHR ''.'' # g # h # i # r)"
    by (simp add: time_text_def ds)
  show ?thesis
    unfolding time_pat_def tt by (simp only: 1 2 3 4 Option.bind.simps)
qed

lemma grp_SomeD:
  "grp s = Some r \<Longrightarrow> \<exists>a b c. is_digit a \<and> is_digit b \<and> s = a # b # colon c @ r"
proof (induction s rule: grp.induct)
  case (1 a b cs)
  then have d: "is_digit a" "is_digit b" by (auto split: if_splits)
  show ?case
  proof (cases "\<exists>t. cs = CHR '':'' # t")
    case True
    then obtain t where "cs = CHR '':'' # t" by blast
    with 1 d have "a # b # cs = a # b # colon True @ r" by (simp add: colon_def)
    with d show ?thesis by blast
  next
    case False
    with 1 d have "r = cs" by (auto split: list.splits if_splits)
    then have "a # b # cs = a # b # colon False @ r" by (simp add: colon_def)
    with d show ?thesis by blast
  qed
qed simp_all

lemma frac_SomeD:
  "frac s = Some r \<Longrightarrow> \<exists>a b c. is_digit a \<and> is_digit b \<and> is_digit c \<and> s = CHR ''.'' # a # b # c # r"
  by (induction s rule: frac.induct) (auto split: if_splits)

lemma time_pat_SomeD:
  assumes "time_pat s = Some r"
  shows "\<exists>ds ch cm cs. digits9 ds \<and> s = time_text ds ch cm cs @ r"
proof -
  from assms obtain r1 r2 r3 where
    g1: "grp s = Some r1" and g2: "grp r1 = Some r2" and g3: "grp r2 = Some r3" and
    fr: "frac r3 = Some r"
    by (auto simp: time_pat_def bind_eq_Some_conv)
  from grp_SomeD [OF g1] obtain a b ch where
    1: "is_digit a \<and> is_digit b \<and> s = a # b # colon ch @ r1" by blast
  from grp_SomeD [OF g2] obtain c d cm where
    2: "is_digit c \<and> is_digit d \<and> r1 = c # d # colon cm @ r2" by blast
  from grp_SomeD [OF g3] obtain e f cs where
    3: "is_digit e \<and> is_digit f \<and> r2 = e # f # colon cs @ r3" by blast
  from frac_SomeD [OF fr] obtain g h i where
    4: "is_digit g \<and> is_digit h \<and> is_digit i \<and> r3 = CHR ''.'' # g # h # i # r" by blast
  have dg: "is_digit a" "is_digit b" "is_digit c" "is_digit d" "is_digit e" "is_digit f"
      "is_digit g" "is_digit h" "is_digit i"
    using 1 2 3 4 by simp_all
  have s: "s = a # b # colon ch @ r1" "r1 = c # d # colon cm @ r2" "r2 = e # f # colon cs @ r3"
      "r3 = CHR ''.'' # g # h # i # r"
    using 1 2 3 4 by simp_all
  have "digits9 [a, b, c, d, e, f, g, h, i]"
    using dg by (simp add: digits9_def)
  moreover have "s = time_text [a, b, c, d, e, f, g, h, i] ch cm cs @ r"
    using s by (simp add: time_text_def)
  ultimately show ?thesis by blast
qed

lemma time_reg_iff:
  "time_reg line = Some m \<longleftrightarrow>
     (\<exists>ds ch cm cs es eh em es' rest. digits9 ds \<and> digits9 es \<and>
        m = time_text ds ch cm cs @ '' --> '' @ time_text es eh em es' \<and> line = m @ rest)"
  (is "?L \<longleftrightarrow> ?R")
proof
  assume ?L
  then obtain r1 r2 where p1: "time_pat line = Some r1" and pre: "prefix '' --> '' r1" and
    p2: "time_pat (drop 5 r1) = Some r2" and m: "m = take (length line - length r2) line"
    by (auto simp: time_reg_def split: option.splits if_splits)
  from pre obtain r1' where r1: "r1 = '' --> '' @ r1'" by (auto simp: prefix_def)
  from p1 obtain ds ch cm cs where ds: "digits9 ds" and l: "line = time_text ds ch cm cs @ r1"
    by (blast dest: time_pat_SomeD)
  from p2 r1 obtain es eh em es' where es: "digits9 es" and l2: "r1' = time_text es eh em es' @ r2"
    by (auto dest: time_pat_SomeD)
  define X where "X = time_text ds ch cm cs @ '' --> '' @ time_text es eh em es'"
  have line: "line = X @ r2"
    using l r1 l2 by (simp add: X_def)
  then have "take (length line - length r2) line = X"
    by simp
  with m have "m = X" by simp
  with line ds es show ?R unfolding X_def by blast
next
  assume ?R
  then obtain ds ch cm cs es eh em es' rest where ds: "digits9 ds" and es: "digits9 es" and
    m: "m = time_text ds ch cm cs @ '' --> '' @ time_text es eh em es'" and l: "line = m @ rest"
    by blast
  define T where "T = time_text es eh em es' @ rest"
  have "line = time_text ds ch cm cs @ ('' --> '' @ T)"
    by (simp add: l m T_def)
  then have 1: "time_pat line = Some ('' --> '' @ T)"
    using time_pat_time_text [OF ds] by simp
  have pre: "prefix '' --> '' ('' --> '' @ T)" and dr: "drop 5 ('' --> '' @ T) = T"
    by simp_all
  have 2: "time_pat T = Some rest"
    unfolding T_def by (rule time_pat_time_text [OF es])
  have tk: "take (length line - length rest) line = m"
    by (simp add: l)
  show ?L
    unfolding time_reg_def 1 using pre dr 2 tk by simp
qed

lemma split_sep_Cons:
  "sep \<noteq> [] \<Longrightarrow> hd sep \<notin> set a \<Longrightarrow> split sep (a @ sep @ b) = a # split sep b"
proof (induction a)
  case Nil
  then obtain c cs where "sep = c # cs" by (cases sep) auto
  then show ?case by simp
next
  case (Cons x a)
  then have "\<not> prefix sep (x # a @ sep @ b)"
    by (cases sep) auto
  with Cons show ?case by simp
qed

lemma split_no_sep: "sep \<noteq> [] \<Longrightarrow> hd sep \<notin> set a \<Longrightarrow> split sep a = [a]"
proof (induction a)
  case Nil
  then show ?case by simp
next
  case (Cons x a)
  then have "\<not> prefix sep (x # a)"
    by (cases sep) auto
  with Cons show ?case by simp
qed

lemma time_text_chars:
  assumes "digits9 ds"
  shows "set (time_text ds ch cm cs) \<subseteq> {c. is_digit c} \<union> {CHR '':'', CHR ''.''}"
    and "\<exists>c \<in> set (time_text ds ch cm cs). is_digit c"
proof -
  from digits9_shape [OF assms] obtain a b c d e f g h i where
    ds: "ds = [a, b, c, d, e, f, g, h, i]"
    by blast
  have dg: "is_digit a" "is_digit b" "is_digit c" "is_digit d" "is_digit e" "is_digit f"
    "is_digit g" "is_digit h" "is_digit i"
    using assms by (simp_all add: digits9_def ds)
  show "set (time_text ds ch cm cs) \<subseteq> {c. is_digit c} \<union> {CHR '':'', CHR ''.''}"
    using dg by (auto simp: time_text_def ds colon_def)
  show "\<exists>c \<in> set (time_text ds ch cm cs). is_digit c"
    using dg by (auto simp: time_text_def ds)
qed

lemma space_notin_time_text: "digits9 ds \<Longrightarrow> CHR '' '' \<notin> set (time_text ds ch cm cs)"
  using time_text_chars(1) [of ds ch cm cs] digit_not_space by auto

lemma split_time_range:
  assumes "digits9 ds" and "digits9 es"
  shows "split '' --> '' (time_text ds ch cm cs @ '' --> '' @ time_text es eh em es') =
         [time_text ds ch cm cs, time_text es eh em es']"
proof -
  have "split '' --> '' (time_text ds ch cm cs @ '' --> '' @ time_text es eh em es') =
        time_text ds ch cm cs # split '' --> '' (time_text es eh em es')"
    using space_notin_time_text [OF assms(1)] by (intro split_sep_Cons) simp_all
  also have "split '' --> '' (time_text es eh em es') = [time_text es eh em es']"
    using space_notin_time_text [OF assms(2)] by (intro split_no_sep) simp_all
  finally show ?thesis .
qed

lemma clean_lines_time_line:
  assumes "digits9 ds" and "digits9 es"
  shows "clean_lines ((time_text ds ch cm cs @ '' --> '' @ time_text es eh em ec @ rest) # ls) cue atl =
         clean_lines ls (cue\<lparr>cue_start := Some (time_text ds ch cm cs),
                             cue_end := Some (time_text es eh em ec)\<rparr>) atl"
proof -
  let ?m = "time_text ds ch cm cs @ '' --> '' @ time_text es eh em ec"
  have "time_reg (?m @ rest) = Some ?m"
    unfolding time_reg_iff using assms by blast
  then show ?thesis
    using split_time_range [OF assms, of ch cm cs eh em ec] by simp
qed

text \<open>
  C8, as the code has it: a line is classified as a timestamp line exactly when it begins
  with two time texts joined by \<^verbatim>\<open>" --> "\<close>, where the groups of a time text are
  separated by a colon or by nothing (no other character) and anything may follow the
  second time; every such line sets the start and the end of the cue to the two time
  texts and adds no line.
\<close>

theorem time_line_classifier:
  "(time_reg line \<noteq> None \<longleftrightarrow>
      (\<exists>ds ch cm cs es eh em ec rest. digits9 ds \<and> digits9 es \<and>
         line = time_text ds ch cm cs @ '' --> '' @ time_text es eh em ec @ rest)) \<and>
   (\<forall>ds ch cm cs es eh em ec rest.
      digits9 ds \<and> digits9 es \<and>
      line = time_text ds ch cm cs @ '' --> '' @ time_text es eh em ec @ rest \<longrightarrow>
      clean_lines (line # ls) cue atl =
        clean_lines ls (cue\<lparr>cue_start := Some (time_text ds ch cm cs),
                            cue_end := Some (time_text es eh em ec)\<rparr>) atl)"
proof (intro conjI allI impI)
  show "time_reg line \<noteq> None \<longleftrightarrow>
      (\<exists>ds ch cm cs es eh em ec rest. digits9 ds \<and> digits9 es \<and>
         line = time_text ds ch cm cs @ '' --> '' @ time_text es eh em ec @ rest)"
  proof
    assume "time_reg line \<noteq> None"
    then obtain m where "time_reg line = Some m" by blast
    then obtain ds ch cm cs es eh em ec rest where
      d: "digits9 ds \<and> digits9 es" and
      m: "m = time_text ds ch cm cs @ '' --> '' @ time_text es eh em ec" and
      l: "line = m @ rest"
      unfolding time_reg_iff by blast
    have "line = time_text ds ch cm cs @ '' --> '' @ time_text es eh em ec @ rest"
      by (simp add: l m)
    with d show "\<exists>ds ch cm cs es eh em ec rest. digits9 ds \<and> digits9 es \<and>
         line = time_text ds ch cm cs @ '' --> '' @ time_text es eh em ec @ rest"
      by blast
  next
    assume "\<exists>ds ch cm cs es eh em ec rest. digits9 ds \<and> digits9 es \<and>
         line = time_text ds ch cm cs @ '' --> '' @ time_text es eh em ec @ rest"
    then obtain ds ch cm cs es eh em ec rest where
      d: "digits9 ds" "digits9 es" and
      l: "line = time_text ds ch cm cs @ '' --> '' @ time_text es eh em ec @ rest"
      by blast
    have "line = (time_text ds ch cm cs @ '' --> '' @ time_text es eh em ec) @ rest"
      by (simp add: l)
    with d have "time_reg line = Some (time_text ds ch cm cs @ '' --> '' @ time_text es eh em ec)"
      unfolding time_reg_iff by blast
    then show "time_reg line \<noteq> None" by simp
  qed
next
  fix ds ch cm cs es eh em ec rest
  assume "digits9 ds \<and> digits9 es \<and>
      line = time_text ds ch cm cs @ '' --> '' @ time_text es eh em ec @ rest"
  then show "clean_lines (line # ls) cue atl =
        clean_lines ls (cue\<lparr>cue_start := Some (time_text ds ch cm cs),
                            cue_end := Some (time_text es eh em ec)\<rparr>) atl"
    using clean_lines_time_line by blast
qed

definition settings_line :: string where
  "settings_line = ''00:00:01.000 --> 000003.000 align:start position:0%''"

theorem time_line_classifier_witness:
  "digits9 ''000001000'' \<and> digits9 ''000003000'' \<and>
   settings_line =
     time_text ''000001000'' True True False @ '' --> '' @
     time_text ''000003000'' False False False @ '' align:start position:0%'' \<and>
   time_reg settings_line \<noteq> None \<and>
   clean_lines [settings_line]
     \<lparr>cue_lines = [], cue_start = None, cue_end = None, cue_id = None\<rparr> [] =
     Inr (\<lparr>cue_lines = [], cue_start = Some ''00:00:01.000'', cue_end = Some ''000003.000'',
           cue_id = None\<rparr>, [])"
proof -
  have d: "digits9 ''000001000''" "digits9 ''000003000''"
    by (simp_all add: digits9_def is_digit_def)
  have t: "time_text ''000001000'' True True False = ''00:00:01.000''"
    "time_text ''000003000'' False False False = ''000003.000''"
    by (simp_all add: time_text_def colon_def)
  have l: "settings_line =
     time_text ''000001000'' True True False @ '' --> '' @
     time_text ''000003000'' False False False @ '' align:start position:0%''"
    by (simp add: t settings_line_def)
  from time_line_classifier [of settings_line "[]"
      "\<lparr>cue_lines = [], cue_start = None, cue_end = None, cue_id = None\<rparr>" "[]"] d l
  have "time_reg settings_line \<noteq> None" and
    "clean_lines [settings_line]
       \<lparr>cue_lines = [], cue_start = None, cue_end = None, cue_id = None\<rparr> [] =
     clean_lines []
       (\<lparr>cue_lines = [], cue_start = None, cue_end = None, cue_id = None\<rparr>
          \<lparr>cue_start := Some (time_text ''000001000'' True True False),
           cue_end := Some (time_text ''000003000'' False False False)\<rparr>) []"
    by blast+
  then show ?thesis
    using d l by (simp add: t)
qed

text \<open>
  C8 as stated fails for a separator other than the colon: with dots between the groups
  the line is not a timestamp line; it becomes a text line of the cue and enters the
  queue, and the cue has no start and no end.
\<close>

definition dotted_line :: string where
  "dotted_line = ''00.00.01.000 --> 00.00.03.000''"

theorem dotted_line_is_text:
  "time_reg dotted_line = None \<and>
   cue_cleaner dotted_line [] =
     Inr (\<lparr>cue_lines = [dotted_line], cue_start = None, cue_end = None, cue_id = None\<rparr>,
          [dotted_line])"
  by code_simp


section \<open>The splitter\<close>

text \<open>
  A timestamp that \<^verbatim>\<open>_timestamp_check\<close> can read is present and holds a digit. A parsed cue
  has both timestamps, from one timestamp line, or none.
\<close>

definition stamp_ok :: "string option \<Rightarrow> bool" where
  "stamp_ok x = (case x of None \<Rightarrow> False | Some s \<Rightarrow> filter is_digit s \<noteq> [])"

definition timed :: "cue \<Rightarrow> bool" where
  "timed c = (stamp_ok (cue_start c) \<and> stamp_ok (cue_end c))"

definition cue_wf :: "cue \<Rightarrow> bool" where
  "cue_wf c = (timed c \<or> (cue_start c = None \<and> cue_end c = None))"

lemma stamp_ok_iff: "stamp_ok x \<longleftrightarrow> (\<exists>n. stamp_int x = Inr n)"
  by (auto simp: stamp_ok_def stamp_int_def Let_def split: option.splits)

lemma stamp_ok_time_text: "digits9 ds \<Longrightarrow> stamp_ok (Some (time_text ds ch cm cs))"
  using time_text_chars(2) [of ds ch cm cs]
  by (auto simp: stamp_ok_def filter_empty_conv)

lemma clean_lines_time:
  assumes "time_reg line = Some m"
  shows "\<exists>s e. stamp_ok (Some s) \<and> stamp_ok (Some e) \<and>
           (\<forall>ls cue atl. clean_lines (line # ls) cue atl =
              clean_lines ls (cue\<lparr>cue_start := Some s, cue_end := Some e\<rparr>) atl)"
proof -
  from assms obtain ds ch cm cs es eh em ec rest where
    d: "digits9 ds \<and> digits9 es" and
    m: "m = time_text ds ch cm cs @ '' --> '' @ time_text es eh em ec" and
    l: "line = m @ rest"
    unfolding time_reg_iff by blast
  have "line = time_text ds ch cm cs @ '' --> '' @ time_text es eh em ec @ rest"
    by (simp add: l m)
  with d have *: "digits9 ds \<and> digits9 es \<and>
      line = time_text ds ch cm cs @ '' --> '' @ time_text es eh em ec @ rest"
    by simp
  then have "\<forall>ls cue atl. clean_lines (line # ls) cue atl =
      clean_lines ls (cue\<lparr>cue_start := Some (time_text ds ch cm cs),
                          cue_end := Some (time_text es eh em ec)\<rparr>) atl"
    using clean_lines_time_line by blast
  moreover have "stamp_ok (Some (time_text ds ch cm cs))" "stamp_ok (Some (time_text es eh em ec))"
    using * by (simp_all add: stamp_ok_time_text)
  ultimately show ?thesis by blast
qed

lemma clean_lines_Inr:
  "cue_wf c \<Longrightarrow>
     \<exists>c' new. clean_lines ls c atl = Inr (c', fold accept_line new atl) \<and>
        cue_lines c' = cue_lines c @ new \<and> cue_wf c' \<and> cue_id c' = cue_id c"
proof (induction ls arbitrary: c atl)
  case Nil
  then show ?case by (intro exI [of _ c] exI [of _ "[]"]) simp
next
  case (Cons line ls)
  show ?case
  proof (cases "time_reg line")
    case None
    let ?clean = "sub_tag (sub_stamp line)"
    let ?c1 = "c\<lparr>cue_lines := cue_lines c @ [?clean]\<rparr>"
    from Cons.prems have "cue_wf ?c1" by (simp add: cue_wf_def timed_def)
    from Cons.IH [OF this, of "accept_line ?clean atl"] obtain c' new where
      "clean_lines ls ?c1 (accept_line ?clean atl) = Inr (c', fold accept_line new (accept_line ?clean atl))"
      "cue_lines c' = cue_lines ?c1 @ new" "cue_wf c'" "cue_id c' = cue_id ?c1"
      by blast
    then have "clean_lines (line # ls) c atl = Inr (c', fold accept_line (?clean # new) atl) \<and>
        cue_lines c' = cue_lines c @ (?clean # new) \<and> cue_wf c' \<and> cue_id c' = cue_id c"
      using None by (simp add: Let_def)
    then show ?thesis by blast
  next
    case (Some m)
    from clean_lines_time [OF Some] obtain s e where
      ok: "stamp_ok (Some s)" "stamp_ok (Some e)" and
      eq: "\<And>ls cue atl. clean_lines (line # ls) cue atl =
              clean_lines ls (cue\<lparr>cue_start := Some s, cue_end := Some e\<rparr>) atl"
      by blast
    let ?c1 = "c\<lparr>cue_start := Some s, cue_end := Some e\<rparr>"
    from ok have "cue_wf ?c1" by (simp add: cue_wf_def timed_def)
    from Cons.IH [OF this, of atl] obtain c' new where
      "clean_lines ls ?c1 atl = Inr (c', fold accept_line new atl)"
      "cue_lines c' = cue_lines ?c1 @ new" "cue_wf c'" "cue_id c' = cue_id ?c1"
      by blast
    then have "clean_lines (line # ls) c atl = Inr (c', fold accept_line new atl) \<and>
        cue_lines c' = cue_lines c @ new \<and> cue_wf c' \<and> cue_id c' = cue_id c"
      by (simp add: eq del: clean_lines.simps)
    then show ?thesis by blast
  qed
qed

lemma cue_cleaner_Inr:
  "\<exists>c. cue_cleaner b atl = Inr (c, fold accept_line (cue_lines c) atl) \<and> cue_wf c \<and> cue_id c = None"
proof -
  let ?c0 = "\<lparr>cue_lines = [], cue_start = None, cue_end = None, cue_id = None\<rparr>"
  have "cue_wf ?c0" by (simp add: cue_wf_def)
  from clean_lines_Inr [OF this, of "split [nl] b" atl] show ?thesis
    by (auto simp: cue_cleaner_def)
qed

lemma clean_all_Inr:
  "\<exists>cs. clean_all bs atl = Inr (cs, fold accept_line (concat (map cue_lines cs)) atl) \<and>
        length cs = length bs \<and> list_all cue_wf cs \<and> list_all (\<lambda>c. cue_id c = None) cs"
proof (induction bs arbitrary: atl)
  case Nil
  show ?case by simp
next
  case (Cons b bs)
  from cue_cleaner_Inr [of b atl] obtain c where
    c: "cue_cleaner b atl = Inr (c, fold accept_line (cue_lines c) atl)" "cue_wf c" "cue_id c = None"
    by blast
  from Cons.IH [of "fold accept_line (cue_lines c) atl"] obtain cs where
    cs: "clean_all bs (fold accept_line (cue_lines c) atl) =
          Inr (cs, fold accept_line (concat (map cue_lines cs)) (fold accept_line (cue_lines c) atl))"
      "length cs = length bs" "list_all cue_wf cs" "list_all (\<lambda>c. cue_id c = None) cs"
    by blast
  have "clean_all (b # bs) atl = Inr (c # cs, fold accept_line (concat (map cue_lines (c # cs))) atl)"
    using c(1) cs(1) by simp
  then show ?case
    using c cs by (intro exI [of _ "c # cs"]) simp
qed

lemma split_not_Nil: "split sep s \<noteq> []"
  by (induction sep s rule: split.induct) (auto split: list.splits)

lemma parse_cues_Inr:
  "\<exists>p. parse_cues raw = Inr p \<and> matched p = [] \<and>
       all_text_lines p = fold accept_line (concat (map cue_lines (parsed_cue_list p))) [] \<and>
       list_all cue_wf (parsed_cue_list p) \<and> list_all (\<lambda>c. cue_id c = None) (parsed_cue_list p) \<and>
       header p = hd (split [nl, nl] (replace [nl, CHR '' '', nl] [nl] raw)) \<and>
       Suc (length (parsed_cue_list p)) =
         length (split [nl, nl] (replace [nl, CHR '' '', nl] [nl] raw))"
proof -
  obtain h blocks where sp: "split [nl, nl] (replace [nl, CHR '' '', nl] [nl] raw) = h # blocks"
    using split_not_Nil by (cases "split [nl, nl] (replace [nl, CHR '' '', nl] [nl] raw)") auto
  from clean_all_Inr [of blocks "[]"] obtain cs where
    "clean_all blocks [] = Inr (cs, fold accept_line (concat (map cue_lines cs)) [])"
    "length cs = length blocks" "list_all cue_wf cs" "list_all (\<lambda>c. cue_id c = None) cs"
    by blast
  then show ?thesis
    by (simp add: parse_cues_def sp) 
qed

lemma set_fold_accept_line:
  "set (fold accept_line ls atl) \<subseteq> set atl \<union> {l \<in> set ls. strip l \<noteq> []}"
proof (induction ls arbitrary: atl)
  case Nil
  show ?case by simp
next
  case (Cons a ls)
  have "set (accept_line a atl) \<subseteq> set atl \<union> {l \<in> {a}. strip l \<noteq> []}"
    by (auto simp: accept_line_def)
  with Cons [of "accept_line a atl"] show ?case
    by auto
qed

definition queue_nonblank :: "string list \<Rightarrow> bool" where
  "queue_nonblank atl = list_all (\<lambda>l. strip l \<noteq> []) atl"

lemma parse_cues_queue:
  assumes "parse_cues raw = Inr p"
  shows "queue_ok (parsed_cue_list p) (all_text_lines p)" and "queue_nonblank (all_text_lines p)"
proof -
  from parse_cues_Inr [of raw] assms have
    q: "all_text_lines p = fold accept_line (concat (map cue_lines (parsed_cue_list p))) []"
    by auto
  have sub: "set (all_text_lines p) \<subseteq> {l \<in> set (concat (map cue_lines (parsed_cue_list p))). strip l \<noteq> []}"
    unfolding q using set_fold_accept_line [of "concat (map cue_lines (parsed_cue_list p))" "[]"] by simp
  show "queue_ok (parsed_cue_list p) (all_text_lines p)"
    unfolding queue_ok_def list_all_iff list_ex_iff using sub by auto
  show "queue_nonblank (all_text_lines p)"
    unfolding queue_nonblank_def list_all_iff using sub by auto
qed

section \<open>The matching loop ends\<close>

lemma match_loop_ends:
  "queue_ok cs atl \<Longrightarrow>
     match_loop cs atl m = Inl KeyError \<or> (\<exists>cs' m'. match_loop cs atl m = Inr (cs', m'))"
proof (induction cs atl m rule: match_loop.induct)
  case (1 cs atl m)
  show ?case
  proof (cases "atl = []")
    case True
    then show ?thesis by simp
  next
    case False
    from match_step_progress [OF "1.prems" False] show ?thesis
    proof
      assume "match_step cs atl = Inl KeyError"
      then show ?thesis by (simp add: match_loop_step [OF False])
    next
      assume "\<exists>cs' atl' n. match_step cs atl = Inr (cs', atl', n) \<and> length atl' < length atl \<and>
             subseq atl' (tl atl) \<and> queue_ok cs' atl'"
      then obtain cs' atl' n where step: "match_step cs atl = Inr (cs', atl', n)" and
        ok: "queue_ok cs' atl'"
        by blast
      from "1.IH" [OF False step refl refl ok] show ?thesis
        by (simp add: match_loop_step [OF False] step)
    qed
  qed
qed

text \<open>
  C9, as the code has it: on what the splitter produces, every queue entry is a line of
  some parsed cue, so a round never finds an empty match list. A round either raises
  KeyError (the first cue that contains the head line has no timestamp line) or takes at
  least the head entry out of the queue, which gets strictly shorter. The loop therefore
  ends: with KeyError, or with the queue empty.
\<close>

theorem match_loop_terminates:
  assumes "parse_cues raw = Inr p"
  shows "queue_ok (parsed_cue_list p) (all_text_lines p) \<and>
         (match_text_lines p = Inl KeyError \<or>
          (\<exists>p'. match_text_lines p = Inr p' \<and> all_text_lines p' = [])) \<and>
         (\<forall>cs atl. queue_ok cs atl \<and> atl \<noteq> [] \<longrightarrow>
            match_step cs atl = Inl KeyError \<or>
            (\<exists>cs' atl' n. match_step cs atl = Inr (cs', atl', n) \<and>
               length atl' < length atl \<and> subseq atl' (tl atl) \<and> queue_ok cs' atl'))"
proof (intro conjI allI impI)
  show ok: "queue_ok (parsed_cue_list p) (all_text_lines p)"
    using assms by (rule parse_cues_queue)
  from match_loop_ends [OF ok, of "[]"]
  show "match_text_lines p = Inl KeyError \<or>
          (\<exists>p'. match_text_lines p = Inr p' \<and> all_text_lines p' = [])"
    by (auto simp: match_text_lines_def)
next
  fix cs atl
  assume "queue_ok cs atl \<and> atl \<noteq> []"
  then show "match_step cs atl = Inl KeyError \<or>
            (\<exists>cs' atl' n. match_step cs atl = Inr (cs', atl', n) \<and>
               length atl' < length atl \<and> subseq atl' (tl atl) \<and> queue_ok cs' atl')"
    using match_step_progress by blast
qed

theorem match_loop_terminates_witness:
  "parse_cues scenario_a = Inr scenario_a_parsed \<and>
   queue_ok (parsed_cue_list scenario_a_parsed) (all_text_lines scenario_a_parsed) \<and>
   all_text_lines scenario_a_parsed \<noteq> [] \<and>
   match_step (parsed_cue_list scenario_a_parsed) (all_text_lines scenario_a_parsed) =
     Inr (parsed_cue_list scenario_a_matched, [], 1) \<and>
   match_text_lines scenario_a_parsed = Inr scenario_a_matched \<and>
   all_text_lines scenario_a_matched = []"
  using match_loop_terminates [OF scenario_a_parse]
  by (simp add: scenario_a_parse scenario_a_step scenario_a_match)
    (simp add: scenario_a_parsed_def scenario_a_matched_def)

subsection \<open>A block of text without a timestamp line\<close>

definition note_block :: string where
  "note_block = join [nl] [''WEBVTT'', '''', ''NOTE made by hand'']"

definition note_block_parsed :: parser where
  "note_block_parsed =
     \<lparr>header = ''WEBVTT'',
      parsed_cue_list =
        [\<lparr>cue_lines = [''NOTE made by hand''], cue_start = None, cue_end = None, cue_id = None\<rparr>],
      all_text_lines = [''NOTE made by hand''], matched = []\<rparr>"

text \<open>
  C9 as stated fails here: the first round raises KeyError and the head entry is still
  in the queue.
\<close>

theorem note_block_key_error:
  "parse_cues note_block = Inr note_block_parsed \<and>
   all_text_lines note_block_parsed = [''NOTE made by hand''] \<and>
   match_step (parsed_cue_list note_block_parsed) (all_text_lines note_block_parsed) = Inl KeyError \<and>
   match_text_lines note_block_parsed = Inl KeyError"
  by code_simp


section \<open>The whole pipeline\<close>

definition text_timed :: "cue \<Rightarrow> bool" where
  \<comment> \<open>a cue with a non-blank line has a start\<close>
  "text_timed c = (list_ex (\<lambda>l. strip l \<noteq> []) (cue_lines c) \<longrightarrow> cue_start c \<noteq> None)"

definition store_ok :: "cue list \<Rightarrow> bool" where
  \<comment> \<open>every cue with a non-blank line has readable timestamps\<close>
  "store_ok cs = list_all (\<lambda>c. list_ex (\<lambda>l. strip l \<noteq> []) (cue_lines c) \<longrightarrow> timed c) cs"

lemma store_okD:
  "store_ok cs \<Longrightarrow> i < length cs \<Longrightarrow> l \<in> set (cue_lines (cs ! i)) \<Longrightarrow> strip l \<noteq> [] \<Longrightarrow>
     timed (cs ! i)"
  by (auto simp: store_ok_def list_all_length list_ex_iff)

lemma timed_update_start:
  "stamp_ok (Some s) \<Longrightarrow> timed c \<Longrightarrow> timed (c\<lparr>cue_start := Some s\<rparr>)"
  by (simp add: timed_def)

lemma match_step_ok:
  assumes q: "queue_ok cs atl" and nb: "queue_nonblank atl" and st: "store_ok cs" and ne: "atl \<noteq> []"
    and m: "list_all (\<lambda>r. r < length cs \<and> timed (cs ! r)) m"
  shows "\<exists>cs' atl' n. match_step cs atl = Inr (cs', atl', n) \<and>
           queue_ok cs' atl' \<and> queue_nonblank atl' \<and> store_ok cs' \<and>
           list_all (\<lambda>r. r < length cs' \<and> timed (cs' ! r)) (m @ [n])"
proof -
  let ?ms = "matches_of cs (hd atl)"
  from ne have hd_in: "hd atl \<in> set atl" by simp
  with nb have blank: "strip (hd atl) \<noteq> []"
    by (simp add: queue_nonblank_def list_all_iff)
  from q hd_in obtain i where "i < length cs" "hd atl \<in> set (cue_lines (cs ! i))"
    by (auto simp: queue_ok_iff)
  then have "i \<in> set ?ms" by (simp add: matches_of_iff)
  then have ms: "?ms \<noteq> []" by auto
  then have f_in: "hd ?ms \<in> set ?ms" and n_in: "last ?ms \<in> set ?ms" by simp_all
  from f_in have f: "hd ?ms < length cs" "hd atl \<in> set (cue_lines (cs ! hd ?ms))"
    by (simp_all add: matches_of_iff)
  from n_in have n: "last ?ms < length cs" "hd atl \<in> set (cue_lines (cs ! last ?ms))"
    by (simp_all add: matches_of_iff)
  from store_okD [OF st f blank] have tf: "timed (cs ! hd ?ms)" .
  from store_okD [OF st n blank] have tn: "timed (cs ! last ?ms)" .
  from tf obtain s where s: "cue_start (cs ! hd ?ms) = Some s" and sok: "stamp_ok (Some s)"
    by (cases "cue_start (cs ! hd ?ms)") (auto simp: timed_def stamp_ok_def)
  from q ne have "match_step cs atl \<noteq> Inl KeyError \<longrightarrow>
      (\<exists>cs' atl' n. match_step cs atl = Inr (cs', atl', n) \<and> queue_ok cs' atl')"
    using match_step_progress by blast
  moreover have "match_step cs atl \<noteq> Inl KeyError"
    using ms s by (simp add: match_step_def Let_def)
  ultimately obtain cs' atl' k where step: "match_step cs atl = Inr (cs', atl', k)" and
    q': "queue_ok cs' atl'"
    by blast
  from match_step_Inr [OF step] s have k: "k = last ?ms" and
    cs': "cs' = cs[k := (cs ! k)\<lparr>cue_start := Some s\<rparr>]" and
    atl': "atl' = fold remove1 (cue_lines (cs ! k)) atl"
    by auto
  have tk: "timed ((cs ! k)\<lparr>cue_start := Some s\<rparr>)"
    using tn sok by (simp add: k timed_update_start)
  have len: "length cs' = length cs" by (simp add: cs')
  have keep: "timed (cs' ! r)" if "r < length cs" "timed (cs ! r)" for r
    using that tk by (cases "r = k") (simp_all add: cs')
  have lines: "cue_lines (cs' ! r) = cue_lines (cs ! r)" if "r < length cs" for r
    using that by (cases "r = k") (simp_all add: cs')
  have st': "store_ok cs'"
    unfolding store_ok_def list_all_length
  proof (intro allI impI)
    fix r assume r: "r < length cs'" and ex: "list_ex (\<lambda>l. strip l \<noteq> []) (cue_lines (cs' ! r))"
    from r len have r': "r < length cs" by simp
    from ex lines [OF r'] have "list_ex (\<lambda>l. strip l \<noteq> []) (cue_lines (cs ! r))" by simp
    with st r' have "timed (cs ! r)" by (simp add: store_ok_def list_all_length)
    with r' show "timed (cs' ! r)" by (rule keep)
  qed
  have "set atl' \<subseteq> set atl" unfolding atl' by (rule set_fold_remove1)
  with nb have nb': "queue_nonblank atl'"
    by (auto simp: queue_nonblank_def list_all_iff)
  have "k < length cs' \<and> timed (cs' ! k)"
    using n(1) tn keep by (simp add: k len)
  moreover have "list_all (\<lambda>r. r < length cs' \<and> timed (cs' ! r)) m"
    using m keep by (auto simp: list_all_iff len)
  ultimately have "list_all (\<lambda>r. r < length cs' \<and> timed (cs' ! r)) (m @ [k])"
    by simp
  with step q' nb' st' show ?thesis by blast
qed

lemma match_loop_ok:
  "queue_ok cs atl \<Longrightarrow> queue_nonblank atl \<Longrightarrow> store_ok cs \<Longrightarrow>
     list_all (\<lambda>r. r < length cs \<and> timed (cs ! r)) m \<Longrightarrow>
     \<exists>cs' m'. match_loop cs atl m = Inr (cs', m') \<and>
        list_all (\<lambda>r. r < length cs' \<and> timed (cs' ! r)) m'"
proof (induction cs atl m rule: match_loop.induct)
  case (1 cs atl m)
  show ?case
  proof (cases "atl = []")
    case True
    with "1.prems"(4) show ?thesis by simp
  next
    case False
    from match_step_ok [OF "1.prems"(1,2,3) False "1.prems"(4)] obtain cs' atl' n where
      step: "match_step cs atl = Inr (cs', atl', n)" and
      ok: "queue_ok cs' atl'" "queue_nonblank atl'" "store_ok cs'"
        "list_all (\<lambda>r. r < length cs' \<and> timed (cs' ! r)) (m @ [n])"
      by blast
    from "1.IH" [OF False step refl refl ok] show ?thesis
      by (simp add: match_loop_step [OF False] step)
  qed
qed


lemma add_id_from_frame:
  "length (add_id_from k m cs) = length cs \<and>
   cue_start (add_id_from k m cs ! i) = cue_start (cs ! i) \<and>
   cue_end (add_id_from k m cs ! i) = cue_end (cs ! i) \<and>
   cue_lines (add_id_from k m cs ! i) = cue_lines (cs ! i)"
proof (induction m arbitrary: k cs)
  case Nil
  show ?case by simp
next
  case (Cons r m)
  let ?cs1 = "cs[r := (cs ! r)\<lparr>cue_id := Some (k + 1)\<rparr>]"
  have "cue_start (?cs1 ! i) = cue_start (cs ! i) \<and> cue_end (?cs1 ! i) = cue_end (cs ! i) \<and>
        cue_lines (?cs1 ! i) = cue_lines (cs ! i)"
    by (cases "r < length cs"; cases "i = r"; simp add: list_update_beyond)
  with Cons [of "Suc k" ?cs1] show ?case by simp
qed

lemma add_id_from_id:
  "r < length cs \<Longrightarrow> cue_id (cs ! r) \<noteq> None \<or> r \<in> set m \<Longrightarrow>
     cue_id (add_id_from k m cs ! r) \<noteq> None"
proof (induction m arbitrary: k cs)
  case Nil
  then show ?case by simp
next
  case (Cons a m)
  let ?cs1 = "cs[a := (cs ! a)\<lparr>cue_id := Some (k + 1)\<rparr>]"
  have "r < length ?cs1" using Cons.prems(1) by simp
  moreover have "cue_id (?cs1 ! r) \<noteq> None \<or> r \<in> set m"
    using Cons.prems by (cases "r = a") auto
  ultimately have "cue_id (add_id_from (Suc k) m ?cs1 ! r) \<noteq> None"
    by (rule Cons.IH)
  then show ?case by simp
qed

lemma timed_update_end: "stamp_ok e \<Longrightarrow> timed c \<Longrightarrow> timed (c\<lparr>cue_end := e\<rparr>)"
  by (simp add: timed_def)

lemma timestamp_loop_timed:
  "timestamp_loop m cs = Inr cs' \<Longrightarrow> timed (cs ! i) \<Longrightarrow> timed (cs' ! i)"
proof (induction m cs arbitrary: cs' rule: timestamp_loop.induct)
  case (1 cs)
  then show ?case by simp
next
  case (2 r cs)
  then show ?case by (auto split: sum.splits)
next
  case (3 r nxt rs cs)
  from "3.prems"(1) obtain en sn where
    en: "stamp_int (cue_end (cs ! r)) = Inr en" and sn: "stamp_int (cue_start (cs ! nxt)) = Inr sn"
    by (auto split: sum.splits)
  let ?cs1 = "if en > sn then cs[r := (cs ! r)\<lparr>cue_end := cue_start (cs ! nxt)\<rparr>] else cs"
  from "3.prems"(1) en sn have rec: "timestamp_loop (nxt # rs) ?cs1 = Inr cs'"
    by simp
  from sn have ok: "stamp_ok (cue_start (cs ! nxt))"
    by (auto simp: stamp_ok_iff)
  have "timed (?cs1 ! i)"
    using "3.prems"(2) ok
    by (cases "r < length cs"; cases "i = r") (simp_all add: timed_update_end list_update_beyond)
  from "3.IH" [OF en sn rec this] show ?case .
qed

lemma timestamp_loop_Inr:
  "list_all (\<lambda>r. r < length cs \<and> timed (cs ! r)) m \<Longrightarrow> \<exists>cs'. timestamp_loop m cs = Inr cs'"
proof (induction m cs rule: timestamp_loop.induct)
  case (1 cs)
  show ?case by simp
next
  case (2 r cs)
  then have "stamp_ok (cue_end (cs ! r))" by (simp add: timed_def)
  then obtain en where "stamp_int (cue_end (cs ! r)) = Inr en"
    by (auto simp: stamp_ok_iff)
  then show ?case by simp
next
  case (3 r nxt rs cs)
  from "3.prems" have "stamp_ok (cue_end (cs ! r))" "stamp_ok (cue_start (cs ! nxt))"
    by (simp_all add: timed_def)
  then obtain en sn where
    en: "stamp_int (cue_end (cs ! r)) = Inr en" and sn: "stamp_int (cue_start (cs ! nxt)) = Inr sn"
    by (auto simp: stamp_ok_iff)
  let ?cs1 = "if en > sn then cs[r := (cs ! r)\<lparr>cue_end := cue_start (cs ! nxt)\<rparr>] else cs"
  from sn have ok: "stamp_ok (cue_start (cs ! nxt))"
    by (auto simp: stamp_ok_iff)
  have keep: "timed (?cs1 ! x)" if "timed (cs ! x)" for x
    using that ok
    by (cases "r < length cs"; cases "x = r") (simp_all add: timed_update_end list_update_beyond)
  have "list_all (\<lambda>r. r < length ?cs1 \<and> timed (?cs1 ! r)) (nxt # rs)"
    using "3.prems" keep by (auto simp: list_all_iff)
  from "3.IH" [OF en sn this] show ?case
    using en sn by simp
qed

lemma cue_wf_text_timed:
  "list_all cue_wf cs \<Longrightarrow> list_all text_timed cs \<Longrightarrow> store_ok cs"
  unfolding store_ok_def list_all_iff cue_wf_def text_timed_def by fastforce

text \<open>
  C2, as the code has it: splitting never raises. The rest of the pipeline never raises
  either when every parsed cue that has a non-blank line also has a timestamp line; then
  every matched cue of the result has a start and an end that hold a digit and an id,
  and there are at most as many matched cues as queued lines. A cue block without
  timestamp line is kept, and it is harmless as long as all its lines are blank.
\<close>

theorem process_total:
  "\<exists>p. parse_cues raw = Inr p \<and>
       (list_all text_timed (parsed_cue_list p) \<longrightarrow>
          (\<exists>p'. process raw = Inr p' \<and>
                list_all (\<lambda>c. timed c \<and> cue_id c \<noteq> None) (matched_cues p') \<and>
                length (matched_cues p') \<le> length (all_text_lines p)))"
proof -
  from parse_cues_Inr [of raw] obtain p where
    p: "parse_cues raw = Inr p" and wf: "list_all cue_wf (parsed_cue_list p)"
    by blast
  have "\<exists>p'. process raw = Inr p' \<and>
          list_all (\<lambda>c. timed c \<and> cue_id c \<noteq> None) (matched_cues p') \<and>
          length (matched_cues p') \<le> length (all_text_lines p)"
    if tt: "list_all text_timed (parsed_cue_list p)"
  proof -
    from cue_wf_text_timed [OF wf tt] have st: "store_ok (parsed_cue_list p)" .
    from match_loop_ok [OF parse_cues_queue [OF p] st, of "[]"] obtain cs m where
      loop: "match_loop (parsed_cue_list p) (all_text_lines p) [] = Inr (cs, m)" and
      m: "list_all (\<lambda>r. r < length cs \<and> timed (cs ! r)) m"
      by auto
    define p1 where "p1 = p\<lparr>parsed_cue_list := cs, all_text_lines := [], matched := m\<rparr>"
    have m1: "match_text_lines p = Inr p1"
      by (simp add: match_text_lines_def loop p1_def)
    from match_text_lines_count [OF m1] have cnt: "length m \<le> length (all_text_lines p)"
      by (simp add: p1_def matched_cues_def)
    let ?cs2 = "add_id_from 0 m cs"
    have m2: "list_all (\<lambda>r. r < length ?cs2 \<and> timed (?cs2 ! r)) m"
      using m add_id_from_frame [of 0 m cs] by (simp add: list_all_iff timed_def)
    from timestamp_loop_Inr [OF m2] obtain cs3 where l3: "timestamp_loop m ?cs2 = Inr cs3"
      by blast
    define p3 where "p3 = (add_id p1)\<lparr>parsed_cue_list := cs3\<rparr>"
    have pr: "process raw = Inr p3"
      by (simp add: process_def p m1 timestamp_check_def add_id_def p1_def l3 p3_def)
    have "timed (cs3 ! r) \<and> cue_id (cs3 ! r) \<noteq> None" if r: "r \<in> set m" for r
    proof -
      from m r have lt: "r < length cs" by (simp add: list_all_iff)
      from m2 r have "timed (?cs2 ! r)" by (simp add: list_all_iff)
      from timestamp_loop_timed [OF l3 this] have "timed (cs3 ! r)" .
      moreover have "cue_id (?cs2 ! r) \<noteq> None"
        using lt r by (intro add_id_from_id) simp_all
      then have "cue_id (cs3 ! r) \<noteq> None"
        using timestamp_loop_frame [OF l3] by simp
      ultimately show ?thesis by simp
    qed
    then have "list_all (\<lambda>c. timed c \<and> cue_id c \<noteq> None) (matched_cues p3)"
      by (simp add: matched_cues_def p3_def add_id_def p1_def list_all_iff)
    moreover have "length (matched_cues p3) \<le> length (all_text_lines p)"
      using cnt by (simp add: matched_cues_def p3_def add_id_def p1_def)
    ultimately show ?thesis using pr by blast
  qed
  with p show ?thesis by blast
qed

subsection \<open>A file that ends with an empty line\<close>

definition trailing_blank :: string where
  "trailing_blank =
     join [nl] [''WEBVTT'', '''', ''00:00:01.000 --> 00:00:03.000'', ''Hello'', '''', '''']"

definition trailing_blank_parsed :: parser where
  "trailing_blank_parsed =
     \<lparr>header = ''WEBVTT'',
      parsed_cue_list =
        [\<lparr>cue_lines = [''Hello''], cue_start = Some ''00:00:01.000'',
           cue_end = Some ''00:00:03.000'', cue_id = None\<rparr>,
         \<lparr>cue_lines = [''''], cue_start = None, cue_end = None, cue_id = None\<rparr>],
      all_text_lines = [''Hello''], matched = []\<rparr>"

definition trailing_blank_result :: parser where
  "trailing_blank_result =
     \<lparr>header = ''WEBVTT'',
      parsed_cue_list =
        [\<lparr>cue_lines = [''Hello''], cue_start = Some ''00:00:01.000'',
           cue_end = Some ''00:00:03.000'', cue_id = Some 1\<rparr>,
         \<lparr>cue_lines = [''''], cue_start = None, cue_end = None, cue_id = None\<rparr>],
      all_text_lines = [], matched = [0]\<rparr>"

lemma trailing_blank_parse: "parse_cues trailing_blank = Inr trailing_blank_parsed"
  by code_simp

lemma trailing_blank_timed: "list_all text_timed (parsed_cue_list trailing_blank_parsed)"
  by code_simp

lemma trailing_blank_process: "process trailing_blank = Inr trailing_blank_result"
  by code_simp

theorem process_total_witness:
  "parse_cues trailing_blank = Inr trailing_blank_parsed \<and>
   list_all text_timed (parsed_cue_list trailing_blank_parsed) \<and>
   process trailing_blank = Inr trailing_blank_result \<and>
   list_all (\<lambda>c. timed c \<and> cue_id c \<noteq> None) (matched_cues trailing_blank_result) \<and>
   length (matched_cues trailing_blank_result) \<le> length (all_text_lines trailing_blank_parsed)"
  using process_total [of trailing_blank]
  by (simp add: trailing_blank_parse trailing_blank_timed trailing_blank_process)

subsection \<open>Text blocks without a timestamp line\<close>

definition untimed_text :: string where
  "untimed_text =
     join [nl] [''WEBVTT'', '''', ''00:00:01.000 --> 00:00:02.000'', ''Hello'', '''', ''Hello again'']"

definition untimed_repeat :: string where
  "untimed_repeat =
     join [nl] [''WEBVTT'', '''', ''00:00:01.000 --> 00:00:02.000'', ''Hello'', '''', ''Hello'']"

text \<open>
  C2 as stated fails on both: the block \<^verbatim>\<open>Hello again\<close> has no timestamp line, and
  \<^verbatim>\<open>_match_text_lines\<close> raises KeyError at \<^verbatim>\<open>matches[0]["start"]\<close>; when the block
  repeats the line \<^verbatim>\<open>Hello\<close>, it is the chosen cue, it has no \<^verbatim>\<open>"end"\<close>, and
  \<^verbatim>\<open>_timestamp_check\<close> raises TypeError.
\<close>

theorem untimed_text_raises:
  "process untimed_text = Inl KeyError \<and> process untimed_repeat = Inl TypeError"
  by code_simp


section \<open>The dedup window\<close>

lemma last4_keeps:
  assumes "length r \<le> 3"
  shows "X \<in> set (last4 (q @ X # r))"
proof -
  have "length (q @ X # r) - 4 \<le> length q"
    using assms by simp
  then have "drop (length (q @ X # r) - 4) (q @ X # r) = drop (length (q @ X # r) - 4) q @ X # r"
    by simp
  then show ?thesis
    by (simp add: last4_def)
qed

lemma set_last4: "set (last4 q) \<subseteq> set q"
  by (simp add: last4_def set_drop_subset)

lemma last4_holds:
  assumes "length r \<le> 3"
  shows "set r \<subseteq> set (last4 (q @ X # r))"
proof -
  have "length (q @ X # r) - 4 \<le> length q"
    using assms by simp
  then have "drop (length (q @ X # r) - 4) (q @ X # r) = drop (length (q @ X # r) - 4) q @ X # r"
    by simp
  then show ?thesis
    by (auto simp: last4_def)
qed

lemma fold_accept_line_distinct:
  assumes "finite D" and "card D \<le> 3"
  shows "X \<notin> set r \<Longrightarrow> distinct r \<Longrightarrow> set r \<subseteq> D \<Longrightarrow>
     {l \<in> set ls. l \<noteq> X \<and> strip l \<noteq> []} \<subseteq> D \<Longrightarrow>
     \<exists>r'. fold accept_line ls (q @ X # r) = q @ X # r' \<and> X \<notin> set r'"
proof (induction ls arbitrary: r)
  case Nil
  then show ?case by simp
next
  case (Cons l ls)
  have "length r = card (set r)"
    using Cons.prems(2) by (simp add: distinct_card)
  also have "\<dots> \<le> card D"
    using Cons.prems(3) assms(1) by (rule card_mono [rotated])
  finally have len: "length r \<le> 3" using assms(2) by simp
  from Cons.prems(4) have sub: "{l \<in> set ls. l \<noteq> X \<and> strip l \<noteq> []} \<subseteq> D"
    by auto
  show ?case
  proof (cases "strip l \<noteq> [] \<and> l \<notin> set (last4 (q @ X # r))")
    case True
    with last4_keeps [OF len, of X q] have lX: "l \<noteq> X" by auto
    from True last4_holds [OF len, of q X] have lr: "l \<notin> set r" by auto
    from True lX Cons.prems(4) have lD: "l \<in> D" by auto
    from True have acc: "accept_line l (q @ X # r) = q @ X # (r @ [l])"
      by (simp add: accept_line_def)
    have "X \<notin> set (r @ [l])" "distinct (r @ [l])" "set (r @ [l]) \<subseteq> D"
      using Cons.prems(1,2,3) lX lr lD by simp_all
    from Cons.IH [OF this sub] obtain r' where
      "fold accept_line ls (q @ X # (r @ [l])) = q @ X # r'" "X \<notin> set r'" by blast
    then show ?thesis using acc by auto
  next
    case False
    then have acc: "accept_line l (q @ X # r) = q @ X # r"
      by (auto simp: accept_line_def)
    from Cons.IH [OF Cons.prems(1,2,3) sub] obtain r' where
      "fold accept_line ls (q @ X # r) = q @ X # r'" "X \<notin> set r'" by blast
    then show ?thesis using acc by auto
  qed
qed

lemma count_fold_accept_line:
  "X \<notin> set ls \<Longrightarrow> count_list (fold accept_line ls q) X = count_list q X"
proof (induction ls arbitrary: q)
  case Nil
  show ?case by simp
next
  case (Cons l ls)
  then have "count_list (accept_line l q) X = count_list q X"
    by (auto simp: accept_line_def)
  with Cons show ?case by simp
qed

text \<open>
  C7, as the code has it: let the non-blank line \<open>X\<close> be a line of a run of consecutive
  cues whose lines hold at most 3 different non-blank lines other than \<open>X\<close>, and let \<open>X\<close>
  be in no cue outside the run. Then the queue built by the splitter holds \<open>X\<close> exactly
  once, whatever the number of cues in the run and wherever \<open>X\<close> stands in them. A
  fourth different line pushes \<open>X\<close> out of the window of 4, and the next occurrence of
  \<open>X\<close> is accepted again.
\<close>

theorem dedup_window:
  assumes "parse_cues raw = Inr p"
    and "parsed_cue_list p = before @ run @ after"
    and "strip X \<noteq> []"
    and "X \<notin> set (concat (map cue_lines before))"
    and "X \<notin> set (concat (map cue_lines after))"
    and "X \<in> set (concat (map cue_lines run))"
    and "length (remdups (filter (\<lambda>l. l \<noteq> X \<and> strip l \<noteq> []) (concat (map cue_lines run)))) \<le> 3"
  shows "count_list (all_text_lines p) X = 1"
proof -
  let ?b = "concat (map cue_lines before)" and ?a = "concat (map cue_lines after)"
  let ?m = "concat (map cue_lines run)"
  from split_list_first [OF assms(6)] obtain m1 m2 where
    m: "?m = m1 @ X # m2" and m1: "X \<notin> set m1"
    by blast
  define q0 where "q0 = fold accept_line m1 (fold accept_line ?b [])"
  define D where "D = {l \<in> set ?m. l \<noteq> X \<and> strip l \<noteq> []}"
  have D: "finite D" "card D \<le> 3"
  proof -
    show "finite D" by (simp add: D_def)
    have "D = set (remdups (filter (\<lambda>l. l \<noteq> X \<and> strip l \<noteq> []) ?m))"
      by (auto simp: D_def)
    then have "card D = length (remdups (filter (\<lambda>l. l \<noteq> X \<and> strip l \<noteq> []) ?m))"
      using distinct_card [OF distinct_remdups, of "filter (\<lambda>l. l \<noteq> X \<and> strip l \<noteq> []) ?m"]
      by (simp only:)
    with assms(7) show "card D \<le> 3" by simp
  qed
  from parse_cues_Inr [of raw] assms(1) have
    "all_text_lines p = fold accept_line (concat (map cue_lines (parsed_cue_list p))) []"
    by auto
  then have q: "all_text_lines p = fold accept_line ?a (fold accept_line m2 (accept_line X q0))"
    by (simp add: assms(2) m q0_def)
  have "count_list q0 X = count_list (fold accept_line ?b []) X"
    unfolding q0_def using m1 by (rule count_fold_accept_line)
  also have "\<dots> = count_list [] X"
    using assms(4) by (rule count_fold_accept_line)
  finally have X0: "X \<notin> set q0" by (simp add: count_list_0_iff)
  with set_last4 [of q0] have "X \<notin> set (last4 q0)" by auto
  with assms(3) have 1: "accept_line X q0 = q0 @ X # []"
    by (simp add: accept_line_def)
  have "{l \<in> set m2. l \<noteq> X \<and> strip l \<noteq> []} \<subseteq> D"
    by (auto simp: D_def m)
  from fold_accept_line_distinct [OF D, of X "[]" m2 q0] this obtain r' where
    2: "fold accept_line m2 (q0 @ X # []) = q0 @ X # r'" and Xr: "X \<notin> set r'"
    by auto
  have "count_list (all_text_lines p) X = count_list (q0 @ X # r') X"
    unfolding q 1 2 using assms(5) by (rule count_fold_accept_line)
  also have "\<dots> = 1"
    using X0 Xr by (simp add: count_list_0_iff)
  finally show ?thesis .
qed

subsection \<open>The same line in 5 consecutive cues, with two other lines\<close>

definition hello_cue :: "string \<Rightarrow> string \<Rightarrow> string list \<Rightarrow> cue" where
  "hello_cue s e ls = \<lparr>cue_lines = ls, cue_start = Some s, cue_end = Some e, cue_id = None\<rparr>"

definition five_hello :: string where
  "five_hello =
     join [nl] [''WEBVTT'', '''',
       ''00:00:01.000 --> 00:00:02.000'', ''intro'', ''Hello'', '''',
       ''00:00:02.000 --> 00:00:03.000'', ''Hello'', ''World'', '''',
       ''00:00:03.000 --> 00:00:04.000'', ''Hello'', ''World'', '''',
       ''00:00:04.000 --> 00:00:05.000'', ''Hello'', ''World'', '''',
       ''00:00:05.000 --> 00:00:06.000'', ''Hello'', ''World'']"

definition five_hello_parsed :: parser where
  "five_hello_parsed =
     \<lparr>header = ''WEBVTT'',
      parsed_cue_list =
        [hello_cue ''00:00:01.000'' ''00:00:02.000'' [''intro'', ''Hello''],
         hello_cue ''00:00:02.000'' ''00:00:03.000'' [''Hello'', ''World''],
         hello_cue ''00:00:03.000'' ''00:00:04.000'' [''Hello'', ''World''],
         hello_cue ''00:00:04.000'' ''00:00:05.000'' [''Hello'', ''World''],
         hello_cue ''00:00:05.000'' ''00:00:06.000'' [''Hello'', ''World'']],
      all_text_lines = [''intro'', ''Hello'', ''World''], matched = []\<rparr>"

lemma five_hello_parse: "parse_cues five_hello = Inr five_hello_parsed"
  by code_simp

theorem dedup_window_witness:
  "parse_cues five_hello = Inr five_hello_parsed \<and>
   parsed_cue_list five_hello_parsed = [] @ parsed_cue_list five_hello_parsed @ [] \<and>
   strip ''Hello'' \<noteq> [] \<and>
   list_all (\<lambda>c. ''Hello'' \<in> set (cue_lines c)) (parsed_cue_list five_hello_parsed) \<and>
   length (parsed_cue_list five_hello_parsed) = 5 \<and>
   remdups (filter (\<lambda>l. l \<noteq> ''Hello'' \<and> strip l \<noteq> [])
     (concat (map cue_lines (parsed_cue_list five_hello_parsed)))) = [''intro'', ''World''] \<and>
   count_list (all_text_lines five_hello_parsed) ''Hello'' = 1"
proof -
  have s: "strip ''Hello'' \<noteq> []"
    by code_simp
  have c: "concat (map cue_lines (parsed_cue_list five_hello_parsed)) =
     [''intro'', ''Hello'', ''Hello'', ''World'', ''Hello'', ''World'', ''Hello'', ''World'',
      ''Hello'', ''World'']"
    by (simp add: five_hello_parsed_def hello_cue_def)
  have r: "remdups (filter (\<lambda>l. l \<noteq> ''Hello'' \<and> strip l \<noteq> [])
     (concat (map cue_lines (parsed_cue_list five_hello_parsed)))) = [''intro'', ''World'']"
    unfolding c by code_simp
  have a: "list_all (\<lambda>c. ''Hello'' \<in> set (cue_lines c)) (parsed_cue_list five_hello_parsed)"
    "length (parsed_cue_list five_hello_parsed) = 5"
    by (simp_all add: five_hello_parsed_def hello_cue_def)
  have i: "''Hello'' \<in> set (concat (map cue_lines (parsed_cue_list five_hello_parsed)))"
    unfolding c by simp
  have n: "length (remdups (filter (\<lambda>l. l \<noteq> ''Hello'' \<and> strip l \<noteq> [])
     (concat (map cue_lines (parsed_cue_list five_hello_parsed))))) \<le> 3"
    unfolding r by simp
  have e: "parsed_cue_list five_hello_parsed = [] @ parsed_cue_list five_hello_parsed @ []"
    by simp
  have o: "''Hello'' \<notin> set (concat (map cue_lines []))"
    by simp
  have "count_list (all_text_lines five_hello_parsed) ''Hello'' = 1"
    using dedup_window [OF five_hello_parse e s o o i n] .
  with five_hello_parse s r a show ?thesis by simp
qed

subsection \<open>The same line in 5 consecutive cues, each with a new second line\<close>

definition five_rolling :: string where
  "five_rolling =
     join [nl] [''WEBVTT'', '''',
       ''00:00:01.000 --> 00:00:02.000'', ''Hello'', ''one'', '''',
       ''00:00:02.000 --> 00:00:03.000'', ''Hello'', ''two'', '''',
       ''00:00:03.000 --> 00:00:04.000'', ''Hello'', ''three'', '''',
       ''00:00:04.000 --> 00:00:05.000'', ''Hello'', ''four'', '''',
       ''00:00:05.000 --> 00:00:06.000'', ''Hello'', ''five'']"

definition five_rolling_parsed :: parser where
  "five_rolling_parsed =
     \<lparr>header = ''WEBVTT'',
      parsed_cue_list =
        [hello_cue ''00:00:01.000'' ''00:00:02.000'' [''Hello'', ''one''],
         hello_cue ''00:00:02.000'' ''00:00:03.000'' [''Hello'', ''two''],
         hello_cue ''00:00:03.000'' ''00:00:04.000'' [''Hello'', ''three''],
         hello_cue ''00:00:04.000'' ''00:00:05.000'' [''Hello'', ''four''],
         hello_cue ''00:00:05.000'' ''00:00:06.000'' [''Hello'', ''five'']],
      all_text_lines = [''Hello'', ''one'', ''two'', ''three'', ''four'', ''Hello'', ''five''],
      matched = []\<rparr>"

text \<open>
  C7 as stated fails here: \<^verbatim>\<open>Hello\<close> is in each of the 5 consecutive cues, unchanged, and
  the queue holds it twice.
\<close>

theorem five_rolling_twice:
  "parse_cues five_rolling = Inr five_rolling_parsed \<and>
   length (parsed_cue_list five_rolling_parsed) = 5 \<and>
   list_all (\<lambda>c. ''Hello'' \<in> set (cue_lines c)) (parsed_cue_list five_rolling_parsed) \<and>
   count_list (all_text_lines five_rolling_parsed) ''Hello'' = 2"
  by code_simp

section \<open>The timestamp normalizer on any matched sequence\<close>

subsection \<open>When the pass of the normalizer returns\<close>

text \<open>
  The pass reads the end of every matched cue and the start of every matched cue but the
  first one.
\<close>

definition readable :: "parser \<Rightarrow> bool" where
  "readable p =
     (list_all (\<lambda>c. stamp_ok (cue_end c)) (matched_cues p) \<and>
      list_all (\<lambda>c. stamp_ok (cue_start c)) (tl (matched_cues p)))"

lemma timestamp_loop_returns:
  "list_all (\<lambda>r. stamp_ok (cue_end (cs ! r))) m \<Longrightarrow>
   list_all (\<lambda>r. stamp_ok (cue_start (cs ! r))) (tl m) \<Longrightarrow>
     \<exists>cs'. timestamp_loop m cs = Inr cs'"
proof (induction m cs rule: timestamp_loop.induct)
  case (1 cs)
  show ?case by simp
next
  case (2 r cs)
  then obtain en where "stamp_int (cue_end (cs ! r)) = Inr en"
    by (auto simp: stamp_ok_iff)
  then show ?case by simp
next
  case (3 r nxt rs cs)
  from "3.prems" have "stamp_ok (cue_end (cs ! r))" and ok: "stamp_ok (cue_start (cs ! nxt))"
    by simp_all
  then obtain en sn where
    en: "stamp_int (cue_end (cs ! r)) = Inr en" and sn: "stamp_int (cue_start (cs ! nxt)) = Inr sn"
    by (auto simp: stamp_ok_iff)
  let ?cs1 = "if en > sn then cs[r := (cs ! r)\<lparr>cue_end := cue_start (cs ! nxt)\<rparr>] else cs"
  have e: "stamp_ok (cue_end (?cs1 ! x))" if "stamp_ok (cue_end (cs ! x))" for x
    using that ok by (cases "r < length cs"; cases "x = r") (simp_all add: list_update_beyond)
  have s: "cue_start (?cs1 ! x) = cue_start (cs ! x)" for x
    by simp
  have 1: "list_all (\<lambda>r. stamp_ok (cue_end (?cs1 ! r))) (nxt # rs)"
    using "3.prems"(1) e by (auto simp: list_all_iff)
  have 2: "list_all (\<lambda>r. stamp_ok (cue_start (?cs1 ! r))) (tl (nxt # rs))"
    using "3.prems"(2) by (auto simp: list_all_iff s)
  from "3.IH" [OF en sn 1 2] show ?case
    using en sn by simp
qed

lemma timestamp_loop_returned:
  "timestamp_loop m cs = Inr cs' \<Longrightarrow>
     list_all (\<lambda>r. stamp_ok (cue_end (cs ! r))) m \<and>
     list_all (\<lambda>r. stamp_ok (cue_start (cs ! r))) (tl m)"
proof (induction m cs arbitrary: cs' rule: timestamp_loop.induct)
  case (1 cs)
  show ?case by simp
next
  case (2 r cs)
  then show ?case by (auto simp: stamp_ok_iff split: sum.splits)
next
  case (3 r nxt rs cs)
  from "3.prems" obtain en sn where
    en: "stamp_int (cue_end (cs ! r)) = Inr en" and sn: "stamp_int (cue_start (cs ! nxt)) = Inr sn"
    by (auto split: sum.splits)
  let ?cs1 = "if en > sn then cs[r := (cs ! r)\<lparr>cue_end := cue_start (cs ! nxt)\<rparr>] else cs"
  from "3.prems" en sn have rec: "timestamp_loop (nxt # rs) ?cs1 = Inr cs'"
    by simp
  from en sn have okr: "stamp_ok (cue_end (cs ! r))" and okn: "stamp_ok (cue_start (cs ! nxt))"
    by (auto simp: stamp_ok_iff)
  from "3.IH" [OF en sn rec] have
    1: "list_all (\<lambda>r. stamp_ok (cue_end (?cs1 ! r))) (nxt # rs)" and
    2: "list_all (\<lambda>r. stamp_ok (cue_start (?cs1 ! r))) rs"
    by simp_all
  have e: "stamp_ok (cue_end (cs ! x))" if "stamp_ok (cue_end (?cs1 ! x))" for x
    using that okr by (cases "x = r \<and> r < length cs \<and> en > sn") (auto simp: nth_list_update list_update_beyond split: if_splits)
  have s: "cue_start (?cs1 ! x) = cue_start (cs ! x)" for x
    by simp
  have "list_all (\<lambda>r. stamp_ok (cue_end (cs ! r))) (nxt # rs)"
    using 1 e by (auto simp: list_all_iff)
  moreover have "list_all (\<lambda>r. stamp_ok (cue_start (cs ! r))) rs"
    using 2 by (auto simp: list_all_iff s)
  ultimately show ?case
    using okr okn by simp
qed

lemma readable_refs:
  "readable p \<longleftrightarrow>
     list_all (\<lambda>r. stamp_ok (cue_end (parsed_cue_list p ! r))) (matched p) \<and>
     list_all (\<lambda>r. stamp_ok (cue_start (parsed_cue_list p ! r))) (tl (matched p))"
  by (simp add: readable_def matched_cues_def map_tl [symmetric] list.pred_map comp_def)

text \<open>
  C6, as the code has it, for any sequence of matched cues (references to dicts of the
  parsed cue list): the single forward pass of \<^verbatim>\<open>_timestamp_check\<close> returns exactly
  when the end of every matched cue, and the start of every matched cue but the first,
  is there and holds a digit; otherwise it raises. When it returns, for every adjacent
  pair of matched cues the end of the first, read as an integer once every non-digit is
  stripped, is at most the start of the second read the same way, and with fewer than
  two matched cues nothing is changed.
\<close>

theorem timestamp_check_total:
  assumes "refs_ok p"
  shows "((\<exists>p'. timestamp_check p = Inr p') \<longleftrightarrow> readable p) \<and>
         (\<forall>p'. timestamp_check p = Inr p' \<longrightarrow>
            (\<forall>i. Suc i < length (matched_cues p') \<longrightarrow>
               (\<exists>en sn. stamp_int (cue_end (matched_cues p' ! i)) = Inr en \<and>
                        stamp_int (cue_start (matched_cues p' ! Suc i)) = Inr sn \<and> en \<le> sn)) \<and>
            (length (matched_cues p) < 2 \<longrightarrow> p' = p))"
proof -
  have "(\<exists>p'. timestamp_check p = Inr p') \<longleftrightarrow> readable p"
  proof
    assume "\<exists>p'. timestamp_check p = Inr p'"
    then obtain cs' where "timestamp_loop (matched p) (parsed_cue_list p) = Inr cs'"
      by (auto simp: timestamp_check_def split: sum.splits)
    from timestamp_loop_returned [OF this] show "readable p"
      by (simp add: readable_refs)
  next
    assume "readable p"
    then have "list_all (\<lambda>r. stamp_ok (cue_end (parsed_cue_list p ! r))) (matched p)"
      "list_all (\<lambda>r. stamp_ok (cue_start (parsed_cue_list p ! r))) (tl (matched p))"
      by (simp_all add: readable_refs)
    from timestamp_loop_returns [OF this] show "\<exists>p'. timestamp_check p = Inr p'"
      by (auto simp: timestamp_check_def)
  qed
  moreover have "\<forall>p'. timestamp_check p = Inr p' \<longrightarrow>
            (\<forall>i. Suc i < length (matched_cues p') \<longrightarrow>
               (\<exists>en sn. stamp_int (cue_end (matched_cues p' ! i)) = Inr en \<and>
                        stamp_int (cue_start (matched_cues p' ! Suc i)) = Inr sn \<and> en \<le> sn)) \<and>
            (length (matched_cues p) < 2 \<longrightarrow> p' = p)"
    using timestamp_check_ordered [OF _ assms] by blast
  ultimately show ?thesis by blast
qed

theorem timestamp_check_total_witness:
  "refs_ok scenario_d \<and> readable scenario_d \<and>
   timestamp_check scenario_d = Inr scenario_d_checked \<and>
   stamp_int (cue_end (matched_cues scenario_d_checked ! 0)) = Inr 8000 \<and>
   stamp_int (cue_start (matched_cues scenario_d_checked ! 1)) = Inr 8000 \<and>
   refs_ok single_cue \<and> readable single_cue \<and>
   timestamp_check single_cue = Inr single_cue \<and> length (matched_cues single_cue) < 2"
proof -
  have d: "refs_ok scenario_d"
    by (simp add: refs_ok_def scenario_d_def)
  have s: "refs_ok single_cue"
    by (simp add: refs_ok_def single_cue_def)
  have rd: "readable scenario_d"
    by (simp add: readable_def matched_cues_def scenario_d_def stamp_ok_def is_digit_def)
  have rs: "readable single_cue"
    by (simp add: readable_def matched_cues_def single_cue_def stamp_ok_def is_digit_def)
  have "stamp_int (cue_end (matched_cues scenario_d_checked ! 0)) = Inr 8000"
    by (simp add: matched_cues_def scenario_d_checked_def scenario_d_def stamp_int_def
        int_of_digits_def digit_val_def is_digit_def)
  moreover have "stamp_int (cue_start (matched_cues scenario_d_checked ! 1)) = Inr 8000"
    by (simp add: matched_cues_def scenario_d_checked_def scenario_d_def stamp_int_def
        int_of_digits_def digit_val_def is_digit_def)
  moreover have "length (matched_cues single_cue) < 2"
    by (simp add: matched_cues_def single_cue_def)
  ultimately show ?thesis
    using timestamp_check_total [OF d] timestamp_check_total [OF s]
      scenario_d_run single_cue_run d s rd rs
    by simp
qed

subsection \<open>A matched cue without end\<close>

text \<open>
  The input \<open>untimed_repeat\<close> repeats the line \<^verbatim>\<open>Hello\<close> in a block without timestamp
  line. That block is the last cue with the line, so it is the matched cue; it gets the
  start of the first cue and has no end.
\<close>

definition untimed_repeat_parsed :: parser where
  "untimed_repeat_parsed =
     \<lparr>header = ''WEBVTT'',
      parsed_cue_list =
        [\<lparr>cue_lines = [''Hello''], cue_start = Some ''00:00:01.000'',
           cue_end = Some ''00:00:02.000'', cue_id = None\<rparr>,
         \<lparr>cue_lines = [''Hello''], cue_start = None, cue_end = None, cue_id = None\<rparr>],
      all_text_lines = [''Hello''], matched = []\<rparr>"

definition untimed_repeat_aligned :: parser where
  "untimed_repeat_aligned =
     \<lparr>header = ''WEBVTT'',
      parsed_cue_list =
        [\<lparr>cue_lines = [''Hello''], cue_start = Some ''00:00:01.000'',
           cue_end = Some ''00:00:02.000'', cue_id = None\<rparr>,
         \<lparr>cue_lines = [''Hello''], cue_start = Some ''00:00:01.000'', cue_end = None,
           cue_id = None\<rparr>],
      all_text_lines = [], matched = [1]\<rparr>"

text \<open>
  C6 as stated fails on this matched-cue sequence, which the aligner itself produces: it
  has one cue, and the pass does not leave it alone but raises TypeError, on the cue's
  missing end.
\<close>

theorem untimed_repeat_check_raises:
  "parse_cues untimed_repeat = Inr untimed_repeat_parsed \<and>
   match_text_lines untimed_repeat_parsed = Inr untimed_repeat_aligned \<and>
   length (matched_cues (add_id untimed_repeat_aligned)) = 1 \<and>
   refs_ok (add_id untimed_repeat_aligned) \<and>
   timestamp_check (add_id untimed_repeat_aligned) = Inl TypeError"
  by code_simp

section \<open>How the queue is shared out among the matched cues\<close>

lemma length_fold_remove1_ge: "length q \<le> length (fold remove1 ls q) + length ls"
proof (induction ls arbitrary: q)
  case Nil
  show ?case by simp
next
  case (Cons a ls)
  have "length q \<le> length (remove1 a q) + 1"
    by (cases "a \<in> set q") (simp_all add: length_remove1 remove1_idem)
  also have "length (remove1 a q) \<le> length (fold remove1 ls (remove1 a q)) + length ls"
    by (rule Cons.IH)
  finally show ?case by simp
qed

lemma match_step_lines:
  assumes "match_step cs atl = Inr (cs', atl', n)"
  shows "length cs' = length cs" and "cue_lines (cs' ! j) = cue_lines (cs ! j)"
proof -
  from match_step_Inr [OF assms] obtain s where
    cs': "cs' = cs[n := (cs ! n)\<lparr>cue_start := Some s\<rparr>]" by blast
  show "length cs' = length cs" by (simp add: cs')
  show "cue_lines (cs' ! j) = cue_lines (cs ! j)"
    by (cases "n < length cs"; cases "j = n") (simp_all add: cs' list_update_beyond)
qed

lemma match_step_ref:
  assumes "match_step cs atl = Inr (cs', atl', n)"
  shows "n < length cs \<and> hd atl \<in> set (cue_lines (cs ! n))"
proof -
  from match_step_Inr [OF assms] have "matches_of cs (hd atl) \<noteq> []"
    and "n = last (matches_of cs (hd atl))"
    by simp_all
  then have "n \<in> set (matches_of cs (hd atl))" by simp
  then show ?thesis by (simp add: matches_of_iff)
qed

lemma match_loop_account:
  "match_loop cs atl m = Inr (cs', m') \<Longrightarrow>
     \<exists>m2 ks. m' = m @ m2 \<and> sum_list ks = length atl \<and>
        list_all2 (\<lambda>k r. 1 \<le> k \<and> k \<le> length (cue_lines (cs ! r)) \<and> r < length cs) ks m2 \<and>
        length cs' = length cs \<and> (\<forall>j. cue_lines (cs' ! j) = cue_lines (cs ! j))"
proof (induction cs atl m arbitrary: cs' m' rule: match_loop.induct)
  case (1 cs atl m)
  show ?case
  proof (cases "atl = []")
    case True
    with "1.prems" have "m' = m @ []" "cs' = cs" by simp_all
    with True show ?thesis
      by (intro exI [of _ "[]"]) simp
  next
    case False
    with "1.prems" obtain cs1 atl1 n where
      step: "match_step cs atl = Inr (cs1, atl1, n)" and
      rec: "match_loop cs1 atl1 (m @ [n]) = Inr (cs', m')"
      by (auto simp: match_loop_step split: sum.splits)
    note lines = match_step_lines [OF step]
    from match_step_ref [OF step] have n: "n < length cs" by simp
    from match_step_Inr [OF step] have atl1: "atl1 = fold remove1 (cue_lines (cs ! n)) atl"
      by simp
    define k where "k = length atl - length atl1"
    from match_step_shorter [OF step False] have lt: "length atl1 < length atl" .
    then have k1: "1 \<le> k" and ksum: "k + length atl1 = length atl"
      by (simp_all add: k_def)
    have k2: "k \<le> length (cue_lines (cs ! n))"
      using length_fold_remove1_ge [of atl "cue_lines (cs ! n)"] by (simp add: k_def atl1)
    from "1.IH" [OF False step refl refl rec] obtain m2 ks where
      ih: "m' = (m @ [n]) @ m2" "sum_list ks = length atl1"
        "list_all2 (\<lambda>k r. 1 \<le> k \<and> k \<le> length (cue_lines (cs1 ! r)) \<and> r < length cs1) ks m2"
        "length cs' = length cs1" "\<forall>j. cue_lines (cs' ! j) = cue_lines (cs1 ! j)"
      by blast
    have "m' = m @ (n # m2)" using ih(1) by simp
    moreover have "sum_list (k # ks) = length atl" using ih(2) ksum by simp
    moreover have "list_all2 (\<lambda>k r. 1 \<le> k \<and> k \<le> length (cue_lines (cs ! r)) \<and> r < length cs)
        (k # ks) (n # m2)"
      using ih(3) k1 k2 n by (simp add: lines)
    moreover have "length cs' = length cs" "\<forall>j. cue_lines (cs' ! j) = cue_lines (cs ! j)"
      using ih(4,5) by (simp_all add: lines)
    ultimately show ?thesis by blast
  qed
qed

lemma sum_list_ones:
  "list_all2 (\<lambda>k c. 1 \<le> k \<and> k \<le> length (cue_lines c)) ks cs \<Longrightarrow>
   list_all (\<lambda>c. length (cue_lines c) \<le> 1) cs \<Longrightarrow> sum_list ks = length cs"
  by (induction ks cs rule: list_all2_induct) auto

lemma sum_list_ge_length:
  "list_all2 (\<lambda>k c. 1 \<le> k \<and> k \<le> length (cue_lines c)) ks cs \<Longrightarrow> length cs \<le> sum_list ks"
  by (induction ks cs rule: list_all2_induct) auto

text \<open>
  C1, as the code has it: a round appends one matched cue and takes out of the queue the
  first queued occurrence of each line of the chosen cue, the head line among them. So
  when the aligner returns, the lines accepted into the queue are shared out among the
  matched cues: there are numbers \<open>ks\<close>, one for each matched cue and each between 1 and
  the number of lines of that cue, that add up to the length of the queue. The number
  of matched cues is therefore at most the number of queued lines; it is equal to it
  when no parsed cue has more than one line, and smaller as soon as a round takes two
  lines out of the queue.
\<close>

theorem match_text_lines_account:
  assumes "match_text_lines p = Inr p'"
  shows "(\<exists>ks. sum_list ks = length (all_text_lines p) \<and>
              list_all2 (\<lambda>k c. 1 \<le> k \<and> k \<le> length (cue_lines c)) ks (matched_cues p')) \<and>
         length (matched_cues p') \<le> length (all_text_lines p) \<and>
         (list_all (\<lambda>c. length (cue_lines c) \<le> 1) (parsed_cue_list p) \<longrightarrow>
            length (matched_cues p') = length (all_text_lines p)) \<and>
         (\<forall>cs atl cs' atl' n. match_step cs atl = Inr (cs', atl', n) \<longrightarrow>
            atl' = fold remove1 (cue_lines (cs ! n)) atl \<and> hd atl \<in> set (cue_lines (cs ! n)))"
proof -
  from assms obtain cs m where
    l: "match_loop (parsed_cue_list p) (all_text_lines p) [] = Inr (cs, m)" and
    p': "p' = p\<lparr>parsed_cue_list := cs, all_text_lines := [], matched := m\<rparr>"
    by (auto simp: match_text_lines_def split: sum.splits)
  let ?cs0 = "parsed_cue_list p"
  from match_loop_account [OF l] obtain ks where
    sum: "sum_list ks = length (all_text_lines p)" and
    all2: "list_all2 (\<lambda>k r. 1 \<le> k \<and> k \<le> length (cue_lines (?cs0 ! r)) \<and> r < length ?cs0) ks m" and
    lines: "\<forall>j. cue_lines (cs ! j) = cue_lines (?cs0 ! j)"
    by auto
  have mc: "matched_cues p' = map (\<lambda>r. cs ! r) m"
    by (simp add: p' matched_cues_def)
  have acc: "list_all2 (\<lambda>k c. 1 \<le> k \<and> k \<le> length (cue_lines c)) ks (matched_cues p')"
    unfolding mc list_all2_map2 using all2 lines
    by (auto elim!: list_all2_mono)
  have le: "length (matched_cues p') \<le> length (all_text_lines p)"
    using sum_list_ge_length [OF acc] sum by simp
  have eq: "length (matched_cues p') = length (all_text_lines p)"
    if one: "list_all (\<lambda>c. length (cue_lines c) \<le> 1) ?cs0"
  proof -
    have "list_all (\<lambda>c. length (cue_lines c) \<le> 1) (matched_cues p')"
      unfolding mc list_all_iff
    proof
      fix c assume "c \<in> set (map (\<lambda>r. cs ! r) m)"
      then obtain r where r: "r \<in> set m" and c: "c = cs ! r" by auto
      from all2 r have "r < length ?cs0"
        by (auto simp: list_all2_conv_all_nth in_set_conv_nth)
      with one have "length (cue_lines (?cs0 ! r)) \<le> 1"
        by (simp add: list_all_length)
      with lines c show "length (cue_lines c) \<le> 1" by simp
    qed
    from sum_list_ones [OF acc this] sum show ?thesis by simp
  qed
  have step: "\<forall>cs atl cs' atl' n. match_step cs atl = Inr (cs', atl', n) \<longrightarrow>
            atl' = fold remove1 (cue_lines (cs ! n)) atl \<and> hd atl \<in> set (cue_lines (cs ! n))"
    using match_step_Inr match_step_ref by blast
  from sum acc le eq step show ?thesis by blast
qed

subsection \<open>Two cues of one line each\<close>

definition two_cues :: string where
  "two_cues =
     join [nl] [''WEBVTT'', '''',
       ''00:00:01.000 --> 00:00:02.000'', ''Hello'', '''',
       ''00:00:02.000 --> 00:00:03.000'', ''World'']"

definition two_cues_parsed :: parser where
  "two_cues_parsed =
     \<lparr>header = ''WEBVTT'',
      parsed_cue_list =
        [\<lparr>cue_lines = [''Hello''], cue_start = Some ''00:00:01.000'',
           cue_end = Some ''00:00:02.000'', cue_id = None\<rparr>,
         \<lparr>cue_lines = [''World''], cue_start = Some ''00:00:02.000'',
           cue_end = Some ''00:00:03.000'', cue_id = None\<rparr>],
      all_text_lines = [''Hello'', ''World''], matched = []\<rparr>"

definition two_cues_matched :: parser where
  "two_cues_matched = two_cues_parsed\<lparr>all_text_lines := [], matched := [0, 1]\<rparr>"

lemma two_cues_parse: "parse_cues two_cues = Inr two_cues_parsed"
  by code_simp

lemma two_cues_match: "match_text_lines two_cues_parsed = Inr two_cues_matched"
  by code_simp

theorem match_text_lines_account_witness:
  "match_text_lines scenario_a_parsed = Inr scenario_a_matched \<and>
   sum_list [2] = length (all_text_lines scenario_a_parsed) \<and>
   list_all2 (\<lambda>k c. 1 \<le> k \<and> k \<le> length (cue_lines c)) [2] (matched_cues scenario_a_matched) \<and>
   length (matched_cues scenario_a_matched) \<le> length (all_text_lines scenario_a_parsed) \<and>
   match_step (parsed_cue_list scenario_a_parsed) (all_text_lines scenario_a_parsed) =
     Inr (parsed_cue_list scenario_a_matched, [], 1) \<and>
   [] = fold remove1 (cue_lines (parsed_cue_list scenario_a_parsed ! 1))
          (all_text_lines scenario_a_parsed) \<and>
   hd (all_text_lines scenario_a_parsed) \<in> set (cue_lines (parsed_cue_list scenario_a_parsed ! 1)) \<and>
   parse_cues two_cues = Inr two_cues_parsed \<and>
   match_text_lines two_cues_parsed = Inr two_cues_matched \<and>
   list_all (\<lambda>c. length (cue_lines c) \<le> 1) (parsed_cue_list two_cues_parsed) \<and>
   length (matched_cues two_cues_matched) = length (all_text_lines two_cues_parsed) \<and>
   length (all_text_lines two_cues_parsed) = 2"
proof -
  have one: "list_all (\<lambda>c. length (cue_lines c) \<le> 1) (parsed_cue_list two_cues_parsed)"
    by (simp add: two_cues_parsed_def)
  have a: "sum_list [2] = length (all_text_lines scenario_a_parsed)"
    "list_all2 (\<lambda>k c. 1 \<le> k \<and> k \<le> length (cue_lines c)) [2] (matched_cues scenario_a_matched)"
    by (simp_all add: scenario_a_parsed_def scenario_a_matched_def matched_cues_def)
  have n: "length (all_text_lines two_cues_parsed) = 2"
    by (simp add: two_cues_parsed_def)
  from match_text_lines_account [OF scenario_a_match] match_text_lines_account [OF two_cues_match] one
  have "length (matched_cues scenario_a_matched) \<le> length (all_text_lines scenario_a_parsed)"
    and "length (matched_cues two_cues_matched) = length (all_text_lines two_cues_parsed)"
    and "[] = fold remove1 (cue_lines (parsed_cue_list scenario_a_parsed ! 1))
          (all_text_lines scenario_a_parsed) \<and>
        hd (all_text_lines scenario_a_parsed) \<in>
          set (cue_lines (parsed_cue_list scenario_a_parsed ! 1))"
    using scenario_a_step by blast+
  with scenario_a_match scenario_a_step two_cues_parse two_cues_match one a n show ?thesis
    by simp
qed

section \<open>Serializing and splitting again\<close>

text \<open>
  \<open>clear pat s t\<close>: no occurrence of \<open>pat\<close> begins inside \<open>s\<close> when \<open>s\<close> is followed
  by \<open>t\<close>.
\<close>

fun clear :: "string \<Rightarrow> string \<Rightarrow> string \<Rightarrow> bool" where
  "clear pat [] t = True"
| "clear pat (c # s) t = (\<not> prefix pat (c # s @ t) \<and> clear pat s t)"

lemma clear_append: "clear pat (a @ b) t \<longleftrightarrow> clear pat a (b @ t) \<and> clear pat b t"
  by (induction a) auto

lemma clear_notin: "pat \<noteq> [] \<Longrightarrow> hd pat \<notin> set s \<Longrightarrow> clear pat s t"
  by (induction s) (auto simp: prefix_Cons neq_Nil_conv)

lemma replace_clear: "clear old s t \<Longrightarrow> replace old new (s @ t) = s @ replace old new t"
  by (induction s) auto

lemma split_clear:
  "sep \<noteq> [] \<Longrightarrow> clear sep s (sep @ t) \<Longrightarrow> split sep (s @ sep @ t) = s # split sep t"
proof (induction s)
  case Nil
  then obtain c cs where "sep = c # cs" by (cases sep) auto
  then show ?case by simp
next
  case (Cons x s)
  then show ?case by simp
qed

lemma split_clear_last: "clear sep s [] \<Longrightarrow> split sep s = [s]"
  by (induction s) auto

lemma prefix_short: "length p \<le> length xs \<Longrightarrow> prefix p (xs @ ys) = prefix p xs"
  by (auto simp: prefix_append)

lemma clear_tail:
  "length pat \<le> Suc (length a) \<Longrightarrow> clear pat s (a @ b) = clear pat s a"
proof (induction s)
  case Nil
  show ?case by simp
next
  case (Cons c s)
  have "length pat \<le> length (c # s @ a)" using Cons.prems by simp
  from prefix_short [OF this, of b] have "prefix pat (c # s @ a @ b) \<longleftrightarrow> prefix pat (c # s @ a)"
    by simp
  with Cons show ?case by simp
qed


definition is_time :: "string option \<Rightarrow> bool" where
  \<comment> \<open>a timestamp that is there and is exactly one text of the time pattern\<close>
  "is_time x = (case x of None \<Rightarrow> False | Some s \<Rightarrow> time_pat s = Some [])"

definition plain_line :: "string \<Rightarrow> bool" where
  \<comment> \<open>a text line that the splitter reads back as it is: not empty and not one space, one
      line, left alone by the two \<^verbatim>\<open>re.sub\<close>, not a timestamp line\<close>
  "plain_line l =
     (l \<noteq> [] \<and> l \<noteq> '' '' \<and> nl \<notin> set l \<and> sub_tag (sub_stamp l) = l \<and> time_reg l = None)"

definition plain_header :: "string \<Rightarrow> bool" where
  \<comment> \<open>no empty line and no line of one space in the header, and no newline at its end\<close>
  "plain_header h = (clear [nl, nl] h [nl, nl] \<and> clear [nl, CHR '' '', nl] h [nl, nl])"

definition single_line_cue :: "cue \<Rightarrow> bool" where
  "single_line_cue c =
     (length (cue_lines c) = 1 \<and> list_all plain_line (cue_lines c) \<and>
      is_time (cue_start c) \<and> is_time (cue_end c))"

definition reparsed :: "cue \<Rightarrow> cue" where
  \<comment> \<open>what the splitter makes of the text of a matched cue: the id line is a text line\<close>
  "reparsed c =
     \<lparr>cue_lines = fmt_id (cue_id c) # cue_lines c, cue_start = cue_start c,
      cue_end = cue_end c, cue_id = None\<rparr>"

definition empty_cue :: cue where
  "empty_cue = \<lparr>cue_lines = [[]], cue_start = None, cue_end = None, cue_id = None\<rparr>"

lemma digit_char_digit: "k < 10 \<Longrightarrow> is_digit (digit_char k)"
proof -
  assume "k < 10"
  then have "k = 0 \<or> k = 1 \<or> k = 2 \<or> k = 3 \<or> k = 4 \<or> k = 5 \<or> k = 6 \<or> k = 7 \<or> k = 8 \<or> k = 9"
    by arith
  then show ?thesis
    by (elim disjE) (simp_all add: digit_char_def is_digit_def)
qed

lemma str_nat_digits: "list_all is_digit (str_nat n) \<and> str_nat n \<noteq> []"
proof (induction n rule: str_nat.induct)
  case (1 n)
  show ?case
  proof (cases "n < 10")
    case True
    then show ?thesis by (simp add: str_nat.simps [of n] digit_char_digit)
  next
    case False
    then have "n mod 10 < 10" by simp
    with False "1.IH" show ?thesis
      by (simp add: str_nat.simps [of n] digit_char_digit)
  qed
qed

lemma digit_chars: "is_digit c \<Longrightarrow> c \<noteq> nl \<and> c \<noteq> CHR '' '' \<and> c \<noteq> CHR ''<''"
  by (auto simp: is_digit_def nl_def)

lemma fmt_id_chars:
  "fmt_id x \<noteq> [] \<and> nl \<notin> set (fmt_id x) \<and> CHR '' '' \<notin> set (fmt_id x) \<and>
   CHR ''<'' \<notin> set (fmt_id x)"
proof (cases x)
  case None
  then show ?thesis by (simp add: fmt_id_def nl_def)
next
  case (Some n)
  with str_nat_digits [of n] show ?thesis
    by (auto simp: fmt_id_def list_all_iff dest: digit_chars)
qed

lemma time_reg_needs_space: "CHR '' '' \<notin> set l \<Longrightarrow> time_reg l = None"
proof (rule ccontr)
  assume a: "CHR '' '' \<notin> set l" and "time_reg l \<noteq> None"
  then obtain m where "time_reg l = Some m" by blast
  then obtain ds ch cm cs es eh em ec rest where
    "m = time_text ds ch cm cs @ '' --> '' @ time_text es eh em ec" "l = m @ rest"
    unfolding time_reg_iff by blast
  then have "CHR '' '' \<in> set l" by simp
  with a show False by simp
qed

lemma no_markup: "CHR ''<'' \<notin> set s \<Longrightarrow> sub_stamp s = s \<and> sub_tag s = s"
proof (induction s)
  case Nil
  show ?case by simp
next
  case (Cons c s)
  then have "c \<noteq> CHR ''<''" by auto
  then have "stamp_reg (c # s) = None" "tag_reg (c # s) = None"
    by (simp_all add: stamp_reg_def tag_reg_def)
  with Cons show ?case by simp
qed

lemma is_time_text:
  assumes "is_time x"
  obtains ds ch cm cs where "digits9 ds" "x = Some (time_text ds ch cm cs)"
proof -
  from assms obtain s where x: "x = Some s" and "time_pat s = Some []"
    by (auto simp: is_time_def split: option.splits)
  from time_pat_SomeD [OF this(2)] obtain ds ch cm cs where
    "digits9 ds \<and> s = time_text ds ch cm cs" by auto
  with x that show thesis by blast
qed

lemma time_text_props:
  assumes "digits9 ds"
  shows "time_text ds ch cm cs \<noteq> []" "nl \<notin> set (time_text ds ch cm cs)"
    "CHR '' '' \<notin> set (time_text ds ch cm cs)"
    "hd (time_text ds ch cm cs) \<noteq> nl" "hd (time_text ds ch cm cs) \<noteq> CHR '' ''"
proof -
  let ?t = "time_text ds ch cm cs"
  from time_text_chars(2) [OF assms, of ch cm cs] show ne: "?t \<noteq> []" by auto
  have sub: "set ?t \<subseteq> {c. is_digit c} \<union> {CHR '':'', CHR ''.''}"
    by (rule time_text_chars(1) [OF assms])
  have other: "c \<noteq> nl \<and> c \<noteq> CHR '' ''" if "c \<in> set ?t" for c
  proof -
    from that sub have "is_digit c \<or> c = CHR '':'' \<or> c = CHR ''.''" by auto
    then show ?thesis
      using digit_chars [of c] by (auto simp: nl_def)
  qed
  then show "nl \<notin> set ?t" "CHR '' '' \<notin> set ?t"
    by blast+
  from ne have "hd ?t \<in> set ?t" by simp
  with other show "hd ?t \<noteq> nl" "hd ?t \<noteq> CHR '' ''"
    by blast+
qed


definition cue_body :: "cue \<Rightarrow> string" where
  \<comment> \<open>the text of a cue in the output, without the empty line that ends it\<close>
  "cue_body c =
     fmt_id (cue_id c) @ [nl] @
     fmt_str (cue_start c) @ '' --> '' @ fmt_str (cue_end c) @ [nl] @
     join [nl] (cue_lines c)"

lemma cue_text_body: "cue_text c = cue_body c @ [nl, nl]"
  by (simp add: cue_text_def cue_body_def)

lemma single_line_cue_shape:
  assumes "single_line_cue c"
  obtains l ds ch cm cs es eh em ec where
    "cue_lines c = [l]" "plain_line l" "digits9 ds" "digits9 es"
    "cue_start c = Some (time_text ds ch cm cs)" "cue_end c = Some (time_text es eh em ec)"
proof -
  from assms obtain l where l: "cue_lines c = [l]" "plain_line l"
    by (cases "cue_lines c") (auto simp: single_line_cue_def)
  from assms have "is_time (cue_start c)" and e: "is_time (cue_end c)"
    by (simp_all add: single_line_cue_def)
  then obtain ds ch cm cs where s: "digits9 ds" "cue_start c = Some (time_text ds ch cm cs)"
    by (elim is_time_text)
  from e obtain es eh em ec where "digits9 es" "cue_end c = Some (time_text es eh em ec)"
    by (elim is_time_text)
  with l s that show thesis by blast
qed

lemma plain_line_props:
  assumes "plain_line l"
  shows "l \<noteq> []" "hd l \<noteq> nl" "\<not> prefix [CHR '' '', nl] (l @ nl # u)"
proof -
  from assms have ne: "l \<noteq> []" and s: "l \<noteq> '' ''" and n: "nl \<notin> set l"
    by (simp_all add: plain_line_def)
  from ne show "l \<noteq> []" .
  from ne n show "hd l \<noteq> nl" by (cases l) auto
  show "\<not> prefix [CHR '' '', nl] (l @ nl # u)"
  proof (cases l)
    case Nil
    with ne show ?thesis by simp
  next
    case (Cons a l')
    show ?thesis
    proof (cases l')
      case Nil
      with Cons s have "a \<noteq> CHR '' ''" by simp
      with Cons Nil show ?thesis by simp
    next
      case (Cons b l'')
      with \<open>l = a # l'\<close> n have "b \<noteq> nl" by auto
      with Cons \<open>l = a # l'\<close> show ?thesis by simp
    qed
  qed
qed

lemma clear_one_nl:
  "s \<noteq> [] \<Longrightarrow> hd s \<noteq> nl \<Longrightarrow> clear [nl, nl] [nl] (s @ u)"
  by (cases s) auto

lemma clear_one_sp:
  "\<not> prefix [CHR '' '', nl] u \<Longrightarrow> clear [nl, CHR '' '', nl] [nl] u"
  by simp

lemma not_prefix_sp:
  "s \<noteq> [] \<Longrightarrow> hd s \<noteq> CHR '' '' \<Longrightarrow> \<not> prefix [CHR '' '', nl] (s @ u)"
  by (cases s) auto

lemma cue_body_clear:
  assumes "single_line_cue c"
  shows "clear [nl, nl] (cue_body c) ([nl, nl] @ t)"
    and "\<not> prefix [CHR '' '', nl] t \<Longrightarrow> clear [nl, CHR '' '', nl] (cue_text c) t"
    and "\<not> prefix [CHR '' '', nl] (cue_text c @ t)"
proof -
  from assms obtain l ds ch cm cs es eh em ec where
    l: "cue_lines c = [l]" "plain_line l" and d: "digits9 ds" "digits9 es" and
    s: "cue_start c = Some (time_text ds ch cm cs)" and e: "cue_end c = Some (time_text es eh em ec)"
    by (rule single_line_cue_shape)
  let ?i = "fmt_id (cue_id c)" and ?s = "time_text ds ch cm cs" and ?e = "time_text es eh em ec"
  have body: "cue_body c = ?i @ [nl] @ ?s @ '' --> '' @ ?e @ [nl] @ l"
    by (simp add: cue_body_def l s e fmt_str_def)
  have i: "?i \<noteq> []" "nl \<notin> set ?i" "CHR '' '' \<notin> set ?i"
    using fmt_id_chars [of "cue_id c"] by simp_all
  then have hi: "hd ?i \<noteq> CHR '' ''" by (cases ?i) auto
  have ln: "nl \<notin> set l" using l(2) by (simp add: plain_line_def)
  have arrow: "nl \<notin> set '' --> ''" by (simp add: nl_def)
  note ts = time_text_props [OF d(1), of ch cm cs] time_text_props [OF d(2), of eh em ec]
  note pl = plain_line_props [OF l(2)]
  have 1: "clear [nl, nl] ?i u" "clear [nl, nl] ?s u" "clear [nl, nl] '' --> '' u"
    "clear [nl, nl] ?e u" "clear [nl, nl] l u" for u
    using i ts ln arrow by (simp_all add: clear_notin)
  have 2: "clear [nl, nl] [nl] (?s @ u)" "clear [nl, nl] [nl] (l @ u)" for u
    using ts pl by (auto intro!: clear_one_nl simp del: clear.simps)
  show "clear [nl, nl] (cue_body c) ([nl, nl] @ t)"
    unfolding body clear_append using 1 2 by simp
  have 3: "clear [nl, CHR '' '', nl] ?i u" "clear [nl, CHR '' '', nl] ?s u"
    "clear [nl, CHR '' '', nl] '' --> '' u"
    "clear [nl, CHR '' '', nl] ?e u" "clear [nl, CHR '' '', nl] l u" for u
    using i ts ln arrow by (simp_all add: clear_notin)
  have 4: "clear [nl, CHR '' '', nl] [nl] (?s @ u)" for u
    using ts by (intro clear_one_sp not_prefix_sp) simp_all
  have 5: "clear [nl, CHR '' '', nl] [nl] (l @ nl # u)" for u
    using pl(3) by (intro clear_one_sp)
  have 6: "clear [nl, CHR '' '', nl] [nl, nl] t" if "\<not> prefix [CHR '' '', nl] t"
    using that by (simp add: nl_def)
  show "clear [nl, CHR '' '', nl] (cue_text c) t" if "\<not> prefix [CHR '' '', nl] t"
    unfolding cue_text_body body clear_append using 3 4 5 6 [OF that] by simp
  show "\<not> prefix [CHR '' '', nl] (cue_text c @ t)"
    unfolding cue_text_body body using not_prefix_sp [OF i(1) hi] by simp
qed


lemma fmt_id_line:
  "time_reg (fmt_id x) = None \<and> sub_tag (sub_stamp (fmt_id x)) = fmt_id x"
  using fmt_id_chars [of x] by (simp add: time_reg_needs_space no_markup)

lemma cue_cleaner_body:
  assumes "single_line_cue c"
  shows "\<exists>atl'. cue_cleaner (cue_body c) atl = Inr (reparsed c, atl')"
proof -
  from assms obtain l ds ch cm cs es eh em ec where
    l: "cue_lines c = [l]" "plain_line l" and d: "digits9 ds" "digits9 es" and
    s: "cue_start c = Some (time_text ds ch cm cs)" and e: "cue_end c = Some (time_text es eh em ec)"
    by (rule single_line_cue_shape)
  let ?i = "fmt_id (cue_id c)" and ?s = "time_text ds ch cm cs" and ?e = "time_text es eh em ec"
  let ?ts = "?s @ '' --> '' @ ?e"
  have body: "cue_body c = ?i @ [nl] @ ?ts @ [nl] @ l"
    by (simp add: cue_body_def l s e fmt_str_def)
  have i: "nl \<notin> set ?i" using fmt_id_chars [of "cue_id c"] by simp
  have ln: "nl \<notin> set l" and lt: "time_reg l = None" and lm: "sub_tag (sub_stamp l) = l"
    using l(2) by (simp_all add: plain_line_def)
  have tn: "nl \<notin> set ?ts"
    using time_text_props(2) [OF d(1), of ch cm cs] time_text_props(2) [OF d(2), of eh em ec]
    by (simp add: nl_def)
  have "split [nl] (cue_body c) = ?i # split [nl] (?ts @ [nl] @ l)"
    unfolding body using i by (intro split_sep_Cons) simp_all
  also have "split [nl] (?ts @ [nl] @ l) = ?ts # split [nl] l"
    using tn by (intro split_sep_Cons) simp_all
  also have "split [nl] l = [l]"
    using ln by (intro split_no_sep) simp_all
  finally have sp: "split [nl] (cue_body c) = [?i, ?ts, l]" .
  let ?c0 = "\<lparr>cue_lines = [], cue_start = None, cue_end = None, cue_id = None\<rparr>"
  let ?c1 = "?c0\<lparr>cue_lines := cue_lines ?c0 @ [?i]\<rparr>"
  have 1: "clean_lines [?i, ?ts, l] ?c0 atl = clean_lines [?ts, l] ?c1 (accept_line ?i atl)"
    using fmt_id_line [of "cue_id c"] by (simp add: Let_def)
  have 2: "clean_lines ((?s @ '' --> '' @ ?e @ []) # [l]) ?c1 (accept_line ?i atl) =
      clean_lines [l] (?c1\<lparr>cue_start := Some ?s, cue_end := Some ?e\<rparr>) (accept_line ?i atl)"
    by (rule clean_lines_time_line [OF d])
  have 3: "clean_lines [l] (?c1\<lparr>cue_start := Some ?s, cue_end := Some ?e\<rparr>) (accept_line ?i atl) =
      Inr (reparsed c, accept_line l (accept_line ?i atl))"
    using lt lm by (simp add: Let_def reparsed_def l s e)
  have "cue_cleaner (cue_body c) atl = Inr (reparsed c, accept_line l (accept_line ?i atl))"
    unfolding cue_cleaner_def sp 1 using 2 3 by simp
  then show ?thesis by blast
qed

lemma cue_cleaner_empty: "cue_cleaner [] atl = Inr (empty_cue, atl)"
  by (simp add: cue_cleaner_def time_reg_def time_pat_def accept_line_def strip_def empty_cue_def)

lemma clean_all_bodies:
  "list_all single_line_cue cs \<Longrightarrow>
     \<exists>atl'. clean_all (map cue_body cs @ [[]]) atl = Inr (map reparsed cs @ [empty_cue], atl')"
proof (induction cs arbitrary: atl)
  case Nil
  show ?case by (simp add: cue_cleaner_empty)
next
  case (Cons c cs)
  then have c: "single_line_cue c" and cs: "list_all single_line_cue cs" by simp_all
  from cue_cleaner_body [OF c, of atl] obtain atl1 where
    1: "cue_cleaner (cue_body c) atl = Inr (reparsed c, atl1)" by blast
  from Cons.IH [OF cs, of atl1] obtain atl2 where
    2: "clean_all (map cue_body cs @ [[]]) atl1 = Inr (map reparsed cs @ [empty_cue], atl2)" by blast
  show ?case using 1 2 by simp
qed

lemma blocks_text:
  "list_all single_line_cue cs \<Longrightarrow>
     replace [nl, CHR '' '', nl] [nl] (concat (map cue_text cs)) = concat (map cue_text cs) \<and>
     split [nl, nl] (concat (map cue_text cs)) = map cue_body cs @ [[]] \<and>
     \<not> prefix [CHR '' '', nl] (concat (map cue_text cs))"
proof (induction cs)
  case Nil
  show ?case by simp
next
  case (Cons c cs)
  then have c: "single_line_cue c" and cs: "list_all single_line_cue cs" by simp_all
  let ?t = "concat (map cue_text cs)"
  from Cons.IH [OF cs] have ih:
    "replace [nl, CHR '' '', nl] [nl] ?t = ?t" "split [nl, nl] ?t = map cue_body cs @ [[]]"
    "\<not> prefix [CHR '' '', nl] ?t"
    by simp_all
  have "replace [nl, CHR '' '', nl] [nl] (cue_text c @ ?t) = cue_text c @ replace [nl, CHR '' '', nl] [nl] ?t"
    by (rule replace_clear [OF cue_body_clear(2) [OF c ih(3)]])
  then have 1: "replace [nl, CHR '' '', nl] [nl] (concat (map cue_text (c # cs))) =
      concat (map cue_text (c # cs))"
    by (simp add: ih(1))
  have "split [nl, nl] (cue_body c @ [nl, nl] @ ?t) = cue_body c # split [nl, nl] ?t"
    by (rule split_clear [OF _ cue_body_clear(1) [OF c]]) simp
  then have 2: "split [nl, nl] (concat (map cue_text (c # cs))) = map cue_body (c # cs) @ [[]]"
    by (simp add: ih(2) cue_text_body)
  have 3: "\<not> prefix [CHR '' '', nl] (concat (map cue_text (c # cs)))"
    using cue_body_clear(3) [OF c, of ?t] by simp
  from 1 2 3 show ?case by blast
qed

lemma fold_accept_line_empty: "fold accept_line (ls @ [[]]) q = fold accept_line ls q"
  by (simp add: accept_line_def strip_def)

text \<open>
  C3, as the code has it: take matched cues that hold one line each, the line being one
  that the splitter reads back as it is, with a start and an end in the timestamp
  format, under a header without empty line. Splitting the serialized text gives back
  the header and, in the same order, one cue per matched cue with the same start and
  end, whose lines are the id line followed by the line of the matched cue; one more
  cue follows, with a single empty line and no timestamps, for the empty line that ends
  the text. The id lines are queued as text lines.
\<close>

theorem serialize_then_split:
  assumes "plain_header (header p)" and "list_all single_line_cue (matched_cues p)"
  shows "parse_cues (get_subtitle_str p) =
           Inr \<lparr>header = header p,
                parsed_cue_list = map reparsed (matched_cues p) @ [empty_cue],
                all_text_lines =
                  fold accept_line (concat (map cue_lines (map reparsed (matched_cues p)))) [],
                matched = []\<rparr>"
proof -
  let ?t = "concat (map cue_text (matched_cues p))"
  let ?h = "header p"
  from blocks_text [OF assms(2)] have t:
    "replace [nl, CHR '' '', nl] [nl] ?t = ?t" "split [nl, nl] ?t = map cue_body (matched_cues p) @ [[]]"
    "\<not> prefix [CHR '' '', nl] ?t"
    by simp_all
  from assms(1) have h: "clear [nl, nl] ?h [nl, nl]" "clear [nl, CHR '' '', nl] ?h [nl, nl]"
    by (simp_all add: plain_header_def)
  have "clear [nl, CHR '' '', nl] ?h ([nl, nl] @ ?t)"
    using clear_tail [of "[nl, CHR '' '', nl]" "[nl, nl]" ?h ?t] h(2) by simp
  moreover have "clear [nl, CHR '' '', nl] [nl, nl] ?t"
    using t(3) by (simp add: nl_def)
  ultimately have "clear [nl, CHR '' '', nl] (?h @ [nl, nl]) ?t"
    by (simp add: clear_append)
  from replace_clear [OF this, of "[nl]"] have
    r: "replace [nl, CHR '' '', nl] [nl] (get_subtitle_str p) = ?h @ [nl, nl] @ ?t"
    by (simp add: get_subtitle_str_def t(1))
  have "clear [nl, nl] ?h ([nl, nl] @ ?t)"
    using clear_tail [of "[nl, nl]" "[nl, nl]" ?h ?t] h(1) by simp
  from split_clear [OF _ this] have
    s: "split [nl, nl] (?h @ [nl, nl] @ ?t) = ?h # map cue_body (matched_cues p) @ [[]]"
    by (simp add: t(2))
  from clean_all_bodies [OF assms(2), of "[]"] obtain atl where
    "clean_all (map cue_body (matched_cues p) @ [[]]) [] =
       Inr (map reparsed (matched_cues p) @ [empty_cue], atl)" by blast
  then have eq: "parse_cues (get_subtitle_str p) =
           Inr \<lparr>header = header p,
                parsed_cue_list = map reparsed (matched_cues p) @ [empty_cue],
                all_text_lines = atl, matched = []\<rparr>"
    unfolding parse_cues_def r s by simp
  from parse_cues_Inr [of "get_subtitle_str p"] eq have
    "atl = fold accept_line (concat (map cue_lines (map reparsed (matched_cues p) @ [empty_cue]))) []"
    by auto
  also have "\<dots> = fold accept_line (concat (map cue_lines (map reparsed (matched_cues p))) @ [[]]) []"
    by (simp add: empty_cue_def)
  also have "\<dots> = fold accept_line (concat (map cue_lines (map reparsed (matched_cues p)))) []"
    by (rule fold_accept_line_empty)
  finally show ?thesis using eq by simp
qed

subsection \<open>Two cues of one line each, processed, serialized and split again\<close>

definition round_trip :: string where
  "round_trip =
     join [nl] [''WEBVTT'', '''',
       ''00:00:01.000 --> 00:00:02.000'', ''Hello'', '''',
       ''00:00:02.000 --> 00:00:03.000'', ''World'']"

definition round_trip_result :: parser where
  "round_trip_result =
     \<lparr>header = ''WEBVTT'',
      parsed_cue_list =
        [\<lparr>cue_lines = [''Hello''], cue_start = Some ''00:00:01.000'',
          cue_end = Some ''00:00:02.000'', cue_id = Some 1\<rparr>,
         \<lparr>cue_lines = [''World''], cue_start = Some ''00:00:02.000'',
          cue_end = Some ''00:00:03.000'', cue_id = Some 2\<rparr>],
      all_text_lines = [], matched = [0, 1]\<rparr>"

definition round_trip_text :: string where
  "round_trip_text =
     join [nl] [''WEBVTT'', '''',
       ''1'', ''00:00:01.000 --> 00:00:02.000'', ''Hello'', '''',
       ''2'', ''00:00:02.000 --> 00:00:03.000'', ''World'', '''', '''']"

definition round_trip_split :: parser where
  "round_trip_split =
     \<lparr>header = ''WEBVTT'',
      parsed_cue_list =
        [\<lparr>cue_lines = [''1'', ''Hello''], cue_start = Some ''00:00:01.000'',
          cue_end = Some ''00:00:02.000'', cue_id = None\<rparr>,
         \<lparr>cue_lines = [''2'', ''World''], cue_start = Some ''00:00:02.000'',
          cue_end = Some ''00:00:03.000'', cue_id = None\<rparr>,
         \<lparr>cue_lines = [''''], cue_start = None, cue_end = None, cue_id = None\<rparr>],
      all_text_lines = [''1'', ''Hello'', ''2'', ''World''], matched = []\<rparr>"

lemma round_trip_process: "process round_trip = Inr round_trip_result"
  by code_simp

lemma round_trip_plain:
  "plain_header (header round_trip_result)"
  "list_all single_line_cue (matched_cues round_trip_result)"
  by code_simp+

theorem serialize_then_split_witness:
  "process round_trip = Inr round_trip_result \<and>
   plain_header (header round_trip_result) \<and>
   list_all single_line_cue (matched_cues round_trip_result) \<and>
   parse_cues (get_subtitle_str round_trip_result) = Inr round_trip_split"
proof -
  have "\<lparr>header = header round_trip_result,
         parsed_cue_list = map reparsed (matched_cues round_trip_result) @ [empty_cue],
         all_text_lines =
           fold accept_line
             (concat (map cue_lines (map reparsed (matched_cues round_trip_result)))) [],
         matched = []\<rparr> = round_trip_split"
    by code_simp
  with serialize_then_split [OF round_trip_plain] round_trip_process round_trip_plain
  show ?thesis by simp
qed

text \<open>
  C3 as stated fails here: the two matched cues hold one line each, \<^verbatim>\<open>Hello\<close> and
  \<^verbatim>\<open>World\<close>. The text that \<^verbatim>\<open>get_subtitle_str\<close> returns is split into three cues: the
  lines of the first two begin with the id lines \<^verbatim>\<open>1\<close> and \<^verbatim>\<open>2\<close>, and the third has one
  empty line and no timestamps.
\<close>

theorem round_trip_adds_lines:
  "process round_trip = Inr round_trip_result \<and>
   map cue_lines (matched_cues round_trip_result) = [[''Hello''], [''World'']] \<and>
   get_subtitle_str round_trip_result = round_trip_text \<and>
   parse_cues round_trip_text = Inr round_trip_split \<and>
   map cue_lines (parsed_cue_list round_trip_split) =
     [[''1'', ''Hello''], [''2'', ''World''], ['''']] \<and>
   map cue_start (parsed_cue_list round_trip_split) =
     [Some ''00:00:01.000'', Some ''00:00:02.000'', None] \<and>
   set (map (\<lambda>c. (cue_start c, cue_end c, cue_lines c)) (parsed_cue_list round_trip_split)) \<noteq>
   set (map (\<lambda>c. (cue_start c, cue_end c, cue_lines c)) (matched_cues round_trip_result))"
  by code_simp

end
